theory Spec2Isabelle
  imports Complex_Main "HOL-Library.Log_Nat" "HOL-Library.AList" "HOL-Library.Word"
    "HOL-Library.Code_Target_Numeral"
begin

text \<open>
  A shallow embedding of the Blue Lock Terminal (\<open>page.tsx\<close>): the numbers and strings of
  the language as far as the program uses them, the storage utilities, the state of the main
  component with its statistics, the submit handlers of the pages, and the component's life
  as a state machine over the mount, the animation frame and the user's actions. Then the
  properties of the program, one section each.

  What the model leaves out: the sign of zero; the case mapping of letters beyond ASCII;
  rendering and styles.
  The host's \<open>JSON.parse\<close> and \<open>JSON.stringify\<close> are parameters. The component mounts once
  (\<open>reactStrictMode\<close> is off in \<open>next.config.ts\<close>).
\<close>

section \<open>JavaScript numbers\<close>

text \<open>
  Every numeric field of the program is a JavaScript \<open>number\<close>: an IEEE 754 binary64 value.
  A finite double is a rational, so the finite values are modelled as \<open>Num q\<close> with \<open>q\<close> a
  rational; the two infinities and NaN are separate constructors. Arithmetic computes the exact
  rational result and rounds it to the nearest double, ties to even, as IEEE 754 prescribes
  (\<open>toDouble\<close>). The sign of zero is not modelled: \<open>+0\<close> and \<open>-0\<close> are both \<open>Num 0\<close>.
  A value \<open>Num q\<close> need not be a double; where a property needs that, it says \<open>isDouble q\<close>.
\<close>

datatype number = NaN | Infinity | NegInfinity | Num rat

text \<open>\<open>ilog2 x\<close> is the binary exponent of a positive rational: \<open>2^e \<le> x < 2^(e+1)\<close>.\<close>

definition ilog2 :: "rat \<Rightarrow> int" where
  "ilog2 x = (let p = fst (quotient_of x); q = snd (quotient_of x); d = bitlen p - bitlen q
              in if 2 powi d \<le> x then d else d - 1)"

definition roundTiesToEven :: "rat \<Rightarrow> int" where
  "roundTiesToEven x =
     (let f = \<lfloor>x\<rfloor>; d = x - of_int f
      in if d < 1 / 2 then f else if 1 / 2 < d then f + 1 else if even f then f else f + 1)"

text \<open>
  Rounding of an exact result to binary64. A double has 53 significant bits, so near a
  magnitude \<open>a\<close> with binary exponent \<open>e\<close> the doubles are the multiples of \<open>2^(e-52)\<close>;
  the exponent of a normal number is at least \<open>-1022\<close>, and below that the spacing stays
  \<open>2^-1074\<close> (the subnormal range). The rounded magnitude overflows to an infinity once it
  reaches \<open>2^1024\<close>.
\<close>

definition ulp :: "rat \<Rightarrow> rat" where
  "ulp a = 2 powi (max (ilog2 a) (- 1022) - 52)"

definition roundMagnitude :: "rat \<Rightarrow> rat" where
  "roundMagnitude a = of_int (roundTiesToEven (a / ulp a)) * ulp a"

definition toDouble :: "rat \<Rightarrow> number" where
  "toDouble x =
     (if x = 0 then Num 0
      else let r = roundMagnitude \<bar>x\<bar>
           in if 2 powi 1024 \<le> r then (if 0 < x then Infinity else NegInfinity)
              else Num (sgn x * r))"

text \<open>The finite doubles are the rationals that rounding leaves unchanged.\<close>

definition isDouble :: "rat \<Rightarrow> bool" where
  "isDouble q = (toDouble q = Num q)"

fun num_neg :: "number \<Rightarrow> number" where
  "num_neg NaN = NaN"
| "num_neg Infinity = NegInfinity"
| "num_neg NegInfinity = Infinity"
| "num_neg (Num a) = Num (- a)"

fun num_add :: "number \<Rightarrow> number \<Rightarrow> number" where
  "num_add (Num a) (Num b) = toDouble (a + b)"
| "num_add NaN _ = NaN"
| "num_add _ NaN = NaN"
| "num_add Infinity NegInfinity = NaN"
| "num_add NegInfinity Infinity = NaN"
| "num_add Infinity _ = Infinity"
| "num_add _ Infinity = Infinity"
| "num_add NegInfinity _ = NegInfinity"
| "num_add _ NegInfinity = NegInfinity"

definition num_sub :: "number \<Rightarrow> number \<Rightarrow> number" where
  "num_sub a b = num_add a (num_neg b)"

text \<open>The sign of a number that is not NaN: \<open>-1\<close>, \<open>0\<close> or \<open>1\<close>.\<close>

fun signum :: "number \<Rightarrow> rat" where
  "signum (Num a) = sgn a"
| "signum Infinity = 1"
| "signum NegInfinity = - 1"
| "signum NaN = 0"

definition signedInfinity :: "rat \<Rightarrow> number" where
  "signedInfinity s = (if s = 0 then NaN else if 0 < s then Infinity else NegInfinity)"

fun num_mul :: "number \<Rightarrow> number \<Rightarrow> number" where
  "num_mul (Num a) (Num b) = toDouble (a * b)"
| "num_mul NaN _ = NaN"
| "num_mul _ NaN = NaN"
| "num_mul a b = signedInfinity (signum a * signum b)"

text \<open>
  Division: a finite nonzero number divided by zero is an infinity, \<open>0 / 0\<close> and
  \<open>Infinity / Infinity\<close> are NaN, and a finite number divided by an infinity is zero.
  The zero divisor counts as \<open>+0\<close>, which is what a subtraction of two equal numbers yields.
\<close>

fun num_div :: "number \<Rightarrow> number \<Rightarrow> number" where
  "num_div (Num a) (Num b) = (if b = 0 then signedInfinity (sgn a) else toDouble (a / b))"
| "num_div NaN _ = NaN"
| "num_div _ NaN = NaN"
| "num_div (Num a) _ = Num 0"
| "num_div a (Num b) = signedInfinity (signum a * (if b < 0 then - 1 else 1))"
| "num_div _ _ = NaN"

text \<open>The comparison operators; every comparison with NaN is false.\<close>

fun num_le :: "number \<Rightarrow> number \<Rightarrow> bool" where
  "num_le NaN _ = False"
| "num_le _ NaN = False"
| "num_le NegInfinity _ = True"
| "num_le _ Infinity = True"
| "num_le (Num a) (Num b) = (a \<le> b)"
| "num_le _ _ = False"

fun num_lt :: "number \<Rightarrow> number \<Rightarrow> bool" where
  "num_lt NaN _ = False"
| "num_lt _ NaN = False"
| "num_lt Infinity _ = False"
| "num_lt _ NegInfinity = False"
| "num_lt (Num a) (Num b) = (a < b)"
| "num_lt _ _ = True"

definition num_ge :: "number \<Rightarrow> number \<Rightarrow> bool" where
  "num_ge a b = num_le b a"

definition num_gt :: "number \<Rightarrow> number \<Rightarrow> bool" where
  "num_gt a b = num_lt b a"

text \<open>Truthiness of a number, as \<open>||\<close> and \<open>?:\<close> test it: NaN and zero are falsy.\<close>

fun truthy :: "number \<Rightarrow> bool" where
  "truthy NaN = False"
| "truthy (Num a) = (a \<noteq> 0)"
| "truthy _ = True"

fun Math_abs :: "number \<Rightarrow> number" where
  "Math_abs NaN = NaN"
| "Math_abs Infinity = Infinity"
| "Math_abs NegInfinity = Infinity"
| "Math_abs (Num a) = Num \<bar>a\<bar>"

definition Math_max :: "number \<Rightarrow> number \<Rightarrow> number" where
  "Math_max a b = (if a = NaN \<or> b = NaN then NaN else if num_le a b then b else a)"

definition Math_min :: "number \<Rightarrow> number \<Rightarrow> number" where
  "Math_min a b = (if a = NaN \<or> b = NaN then NaN else if num_le a b then a else b)"

text \<open>\<open>Math.round\<close>: the nearest integer, a tie going toward \<open>+Infinity\<close>.\<close>

fun Math_round :: "number \<Rightarrow> number" where
  "Math_round (Num a) = Num (of_int \<lfloor>a + 1 / 2\<rfloor>)"
| "Math_round x = x"

text \<open>The length of an array as a number (exact: an array has fewer than \<open>2^32\<close> elements).\<close>

definition len :: "'a list \<Rightarrow> number" where
  "len xs = Num (of_nat (length xs))"

section \<open>JavaScript strings\<close>

text \<open>
  A string is a sequence of UTF-16 code units. A string literal of the source, which is ASCII
  throughout, is written \<open>lit ''...''\<close>.
\<close>

type_synonym codeUnit = "16 word"

type_synonym jsstring = "codeUnit list"

definition lit :: "string \<Rightarrow> jsstring" where
  "lit s = map of_char s"

text \<open>
  The white space that \<open>trim\<close>, \<open>parseFloat\<close> and \<open>parseInt\<close> strip is the language's
  \<open>WhiteSpace\<close> and \<open>LineTerminator\<close>: TAB, LF, VT, FF, CR, the space, the no-break space
  U+00A0, the other space separators U+1680, U+2000 to U+200A, U+202F, U+205F and U+3000, the
  line and paragraph separators U+2028 and U+2029, and the byte order mark U+FEFF. Each is a
  single code unit.
\<close>

definition isWhiteSpace :: "codeUnit \<Rightarrow> bool" where
  "isWhiteSpace c =
     (let n = unat c
      in n \<in> {0x9, 0xA, 0xB, 0xC, 0xD, 0x20, 0xA0, 0x1680, 0x2028, 0x2029, 0x202F, 0x205F,
               0x3000, 0xFEFF}
         \<or> (0x2000 \<le> n \<and> n \<le> 0x200A))"

definition trim :: "jsstring \<Rightarrow> jsstring" where
  "trim s = rev (dropWhile isWhiteSpace (rev (dropWhile isWhiteSpace s)))"

text \<open>
  \<open>toUpperCase\<close> on the letters \<open>a\<close> to \<open>z\<close>; the case mapping of letters beyond ASCII is
  not modelled. The program applies it to the ticker only.
\<close>

definition toUpperCase :: "jsstring \<Rightarrow> jsstring" where
  "toUpperCase s = map (\<lambda>c. if 97 \<le> unat c \<and> unat c \<le> 122 then c - 32 else c) s"

definition isDigit :: "codeUnit \<Rightarrow> bool" where
  "isDigit c = (48 \<le> unat c \<and> unat c \<le> 57)"

text \<open>The value of a digit in a radix up to 16, \<open>None\<close> for any other code unit.\<close>

definition digitValue :: "nat \<Rightarrow> codeUnit \<Rightarrow> nat option" where
  "digitValue radix c =
     (let n = unat c;
          v = (if 48 \<le> n \<and> n \<le> 57 then n - 48
               else if 97 \<le> n \<and> n \<le> 102 then n - 87
               else if 65 \<le> n \<and> n \<le> 70 then n - 55
               else 16)
      in if v < radix then Some v else None)"

definition digitsValue :: "nat \<Rightarrow> jsstring \<Rightarrow> nat" where
  "digitsValue radix ds =
     foldl (\<lambda>n c. radix * n + (case digitValue radix c of None \<Rightarrow> 0 | Some v \<Rightarrow> v)) 0 ds"

text \<open>
  \<open>Date.now().toString()\<close>: the decimal digits of a count of milliseconds.
\<close>

fun toString :: "nat \<Rightarrow> jsstring" where
  "toString n =
     (if n < 10 then [of_nat (48 + n)] else toString (n div 10) @ [of_nat (48 + n mod 10)])"

declare toString.simps [simp del]

text \<open>
  \<open>parseFloat\<close>: leading white space is skipped, then the longest prefix that is a decimal
  literal (an optional sign, then \<open>Infinity\<close> or digits with an optional fraction and an
  optional exponent) is converted; NaN when there is no such prefix.
\<close>

definition exponentPart :: "jsstring \<Rightarrow> int" where
  "exponentPart r =
     (case r of
        [] \<Rightarrow> 0
      | c # r1 \<Rightarrow>
          if c = of_char CHR ''e'' \<or> c = of_char CHR ''E'' then
            (let negative = (r1 \<noteq> [] \<and> hd r1 = of_char CHR ''-'');
                 r2 = (if r1 \<noteq> [] \<and> (hd r1 = of_char CHR ''-'' \<or> hd r1 = of_char CHR ''+'')
                       then tl r1 else r1);
                 ds = takeWhile isDigit r2
             in if ds = [] then 0
                else if negative then - int (digitsValue 10 ds) else int (digitsValue 10 ds))
          else 0)"

definition parseFloat :: "jsstring \<Rightarrow> number" where
  "parseFloat str =
     (let s = dropWhile isWhiteSpace str;
          negative = (s \<noteq> [] \<and> hd s = of_char CHR ''-'');
          s1 = (if s \<noteq> [] \<and> (hd s = of_char CHR ''-'' \<or> hd s = of_char CHR ''+'') then tl s else s)
      in if take 8 s1 = lit ''Infinity'' then (if negative then NegInfinity else Infinity)
         else
           (let ip = takeWhile isDigit s1;
                r1 = dropWhile isDigit s1;
                dot = (r1 \<noteq> [] \<and> hd r1 = of_char CHR ''.'');
                fp = (if dot then takeWhile isDigit (tl r1) else []);
                r2 = (if dot then dropWhile isDigit (tl r1) else r1)
            in if ip = [] \<and> fp = [] then NaN
               else
                 (let mv = of_nat (digitsValue 10 (ip @ fp))
                             * 10 powi (exponentPart r2 - int (length fp))
                  in toDouble (if negative then - mv else mv))))"

text \<open>
  \<open>parseInt\<close> with no radix argument: leading white space is skipped, a sign is read, the
  radix is 16 after a \<open>0x\<close> prefix and 10 otherwise, and the longest prefix of digits of that
  radix is converted; NaN when that prefix is empty.
\<close>

definition parseInt :: "jsstring \<Rightarrow> number" where
  "parseInt str =
     (let s = dropWhile isWhiteSpace str;
          negative = (s \<noteq> [] \<and> hd s = of_char CHR ''-'');
          s1 = (if s \<noteq> [] \<and> (hd s = of_char CHR ''-'' \<or> hd s = of_char CHR ''+'') then tl s else s);
          hex = (take 2 s1 = lit ''0x'' \<or> take 2 s1 = lit ''0X'');
          radix = (if hex then 16 else 10);
          s2 = (if hex then drop 2 s1 else s1);
          z = takeWhile (\<lambda>c. digitValue radix c \<noteq> None) s2
      in if z = [] then NaN
         else toDouble (if negative then - of_nat (digitsValue radix z)
                        else of_nat (digitsValue radix z)))"

text \<open>\<open>a || b\<close> on numbers.\<close>

definition orElse :: "number \<Rightarrow> number \<Rightarrow> number" where
  "orElse a b = (if truthy a then a else b)"


section \<open>Types\<close>

text \<open>
  The interfaces of the source. The fields \<open>id\<close>, \<open>date\<close> and \<open>notes\<close> occur in several
  interfaces and carry the interface's name as a prefix here.
\<close>

record EgoEntry =
  ego_id :: jsstring
  ego_date :: jsstring
  score :: number
  label :: jsstring
  ego_notes :: jsstring

datatype TradeResult = WIN | LOSS | BREAKEVEN

record TradeEntry =
  trade_id :: jsstring
  trade_date :: jsstring
  ticker :: jsstring
  entryPrice :: number
  exitPrice :: number
  shares :: number
  result :: TradeResult
  pnl :: number
  trade_notes :: jsstring

datatype DrillCategory = TRADING | FITNESS | SKILL | MINDSET

record DrillEntry =
  drill_id :: jsstring
  drill_date :: jsstring
  weapon :: jsstring
  intensity :: number
  category :: DrillCategory

record Settings =
  startingCapital :: number
  targetCapital :: number
  weeklyInjection :: number
  currentCapital :: number

section \<open>Ego label logic\<close>

definition getEgoLabel :: "number \<Rightarrow> jsstring" where
  "getEgoLabel s =
     (if num_le s (Num 20) then lit ''DONKEY''
      else if num_le s (Num 40) then lit ''HALF-BAKED''
      else if num_le s (Num 55) then lit ''PUPPET''
      else if num_le s (Num 70) then lit ''HUNGRY''
      else if num_le s (Num 85) then lit ''EGOIST''
      else if num_le s (Num 95) then lit ''MONSTER''
      else lit ''DEVOUR'')"

text \<open>
  The seven labels in the order of their thresholds, and the tier of a label: its position in
  that order, counted from 1 (0 for a string that is no label).
\<close>

definition egoTiers :: "jsstring list" where
  "egoTiers =
     [lit ''DONKEY'', lit ''HALF-BAKED'', lit ''PUPPET'', lit ''HUNGRY'', lit ''EGOIST'',
      lit ''MONSTER'', lit ''DEVOUR'']"

fun position :: "'a \<Rightarrow> 'a list \<Rightarrow> nat" where
  "position x [] = 0"
| "position x (y # ys) =
     (if x = y then 1 else if position x ys = 0 then 0 else Suc (position x ys))"

definition tier :: "jsstring \<Rightarrow> nat" where
  "tier l = position l egoTiers"

text \<open>The classification as the specification words it, on integer scores.\<close>

definition classify :: "int \<Rightarrow> nat" where
  "classify s =
     (if s \<le> 20 then 1 else if s \<le> 40 then 2 else if s \<le> 55 then 3 else if s \<le> 70 then 4
      else if s \<le> 85 then 5 else if s \<le> 95 then 6 else 7)"

section \<open>Storage utilities\<close>

text \<open>
  The host's \<open>localStorage\<close>: the stored items, whether access is permitted (when it is not,
  every access throws), and a quota on the total size of the items. \<open>window\<close> is absent
  outside a browser.
\<close>

datatype exn = SecurityError | QuotaExceededError | SyntaxError

record Storage =
  items :: "(jsstring \<times> jsstring) list"
  accessible :: bool
  quota :: nat

type_synonym Window = "Storage option"

definition getItem :: "Storage \<Rightarrow> jsstring \<Rightarrow> exn + jsstring option" where
  "getItem ls k = (if accessible ls then Inr (map_of (items ls) k) else Inl SecurityError)"

definition usage :: "(jsstring \<times> jsstring) list \<Rightarrow> nat" where
  "usage kvs = sum_list (map (\<lambda>(k, v). length k + length v) kvs)"

definition setItem :: "Storage \<Rightarrow> jsstring \<Rightarrow> jsstring \<Rightarrow> exn + Storage" where
  "setItem ls k v =
     (if \<not> accessible ls then Inl SecurityError
      else if quota ls < usage (AList.update k v (items ls)) then Inl QuotaExceededError
      else Inr (ls\<lparr>items := AList.update k v (items ls)\<rparr>))"

definition STORAGE_KEYS_egoEntries :: jsstring where
  "STORAGE_KEYS_egoEntries = lit ''bluelock_ego''"

definition STORAGE_KEYS_tradeEntries :: jsstring where
  "STORAGE_KEYS_tradeEntries = lit ''bluelock_trades''"

definition STORAGE_KEYS_drillEntries :: jsstring where
  "STORAGE_KEYS_drillEntries = lit ''bluelock_drills''"

definition STORAGE_KEYS_settings :: jsstring where
  "STORAGE_KEYS_settings = lit ''bluelock_settings''"

text \<open>
  \<open>loadFromStorage\<close>. \<open>JSON_parse\<close> is the host's parser at the type of the value read; it
  returns the value or throws. The body of the \<open>try\<close> is \<open>loadFromStorage_try\<close>, whose
  exceptions the \<open>catch\<close> turns into the default value. The result is a sum so that an
  exception reaching the caller would be a value \<open>Inl\<close>.
\<close>

definition loadFromStorage_try ::
  "(jsstring \<Rightarrow> exn + 'a) \<Rightarrow> Storage \<Rightarrow> jsstring \<Rightarrow> 'a \<Rightarrow> exn + 'a" where
  "loadFromStorage_try JSON_parse localStorage key defaultValue =
     (case getItem localStorage key of
        Inl e \<Rightarrow> Inl e
      | Inr stored \<Rightarrow>
          (case stored of
             None \<Rightarrow> Inr defaultValue
           | Some s \<Rightarrow> if s \<noteq> [] then JSON_parse s else Inr defaultValue))"

definition loadFromStorage ::
  "(jsstring \<Rightarrow> exn + 'a) \<Rightarrow> Window \<Rightarrow> jsstring \<Rightarrow> 'a \<Rightarrow> exn + 'a" where
  "loadFromStorage JSON_parse window key defaultValue =
     (case window of
        None \<Rightarrow> Inr defaultValue
      | Some localStorage \<Rightarrow>
          (case loadFromStorage_try JSON_parse localStorage key defaultValue of
             Inl e \<Rightarrow> Inr defaultValue
           | Inr v \<Rightarrow> Inr v))"

text \<open>
  \<open>saveToStorage\<close> returns the window after the call and what was written to the console:
  a failed \<open>setItem\<close> leaves the storage as it was and logs the exception.
\<close>

definition saveToStorage ::
  "('a \<Rightarrow> jsstring) \<Rightarrow> Window \<Rightarrow> jsstring \<Rightarrow> 'a \<Rightarrow> Window \<times> exn list" where
  "saveToStorage JSON_stringify window key v =
     (case window of
        None \<Rightarrow> (None, [])
      | Some localStorage \<Rightarrow>
          (case setItem localStorage key (JSON_stringify v) of
             Inl e \<Rightarrow> (Some localStorage, [e])
           | Inr localStorage' \<Rightarrow> (Some localStorage', [])))"

section \<open>Main component\<close>

datatype Page = dashboard | ego | trades | drills | stats | settings_page

text \<open>The state cells of \<open>BlueLockTerminal\<close> (one \<open>useState\<close> each).\<close>

record BlueLockTerminal =
  currentPage :: Page
  egoEntries :: "EgoEntry list"
  tradeEntries :: "TradeEntry list"
  drillEntries :: "DrillEntry list"
  settings :: Settings
  loaded :: bool

definition defaultSettings :: Settings where
  "defaultSettings =
     \<lparr>startingCapital = Num 4705, targetCapital = Num 10000,
      weeklyInjection = Num 60, currentCapital = Num 4705\<rparr>"

definition initialState :: BlueLockTerminal where
  "initialState =
     \<lparr>currentPage = dashboard, egoEntries = [], tradeEntries = [], drillEntries = [],
      settings = defaultSettings, loaded = False\<rparr>"

definition setCurrentPage :: "Page \<Rightarrow> BlueLockTerminal \<Rightarrow> BlueLockTerminal" where
  "setCurrentPage v st = st\<lparr>currentPage := v\<rparr>"

definition setEgoEntries :: "EgoEntry list \<Rightarrow> BlueLockTerminal \<Rightarrow> BlueLockTerminal" where
  "setEgoEntries v st = st\<lparr>egoEntries := v\<rparr>"

definition setTradeEntries :: "TradeEntry list \<Rightarrow> BlueLockTerminal \<Rightarrow> BlueLockTerminal" where
  "setTradeEntries v st = st\<lparr>tradeEntries := v\<rparr>"

definition setDrillEntries :: "DrillEntry list \<Rightarrow> BlueLockTerminal \<Rightarrow> BlueLockTerminal" where
  "setDrillEntries v st = st\<lparr>drillEntries := v\<rparr>"

definition setSettings :: "Settings \<Rightarrow> BlueLockTerminal \<Rightarrow> BlueLockTerminal" where
  "setSettings v st = st\<lparr>settings := v\<rparr>"

definition setLoaded :: "bool \<Rightarrow> BlueLockTerminal \<Rightarrow> BlueLockTerminal" where
  "setLoaded v st = st\<lparr>loaded := v\<rparr>"

subsection \<open>Statistics\<close>

definition winRate :: "TradeEntry list \<Rightarrow> number" where
  "winRate ts =
     (if num_gt (len ts) (Num 0)
      then Math_round (num_mul (num_div (len (filter (\<lambda>t. result t = WIN) ts)) (len ts)) (Num 100))
      else Num 0)"

text \<open>The argument of \<open>Math.round\<close> in \<open>winRate\<close>: the percentage as the program computes it.\<close>

definition winPercent :: "TradeEntry list \<Rightarrow> number" where
  "winPercent ts =
     num_mul (num_div (len (filter (\<lambda>t. result t = WIN) ts)) (len ts)) (Num 100)"

text \<open>\<open>reduce((s, t) => s + t.pnl, 0)\<close>.\<close>

definition sumPnl :: "TradeEntry list \<Rightarrow> number" where
  "sumPnl ts = foldl (\<lambda>s t. num_add s (pnl t)) (Num 0) ts"

definition totalPnl :: "TradeEntry list \<Rightarrow> number" where
  "totalPnl ts = sumPnl ts"

text \<open>
  The streak loop, \<open>i\<close> running from the last index down to 0. It reads \<open>drillEntries[i]\<close>
  only for \<open>0 \<le> i < length\<close>.
\<close>

function streak_loop :: "DrillEntry list \<Rightarrow> int \<Rightarrow> nat \<Rightarrow> nat" where
  "streak_loop ds i n =
     (if 0 \<le> i
      then (if num_ge (intensity (ds ! nat i)) (Num 5) then streak_loop ds (i - 1) (n + 1) else n)
      else n)"
  by pat_completeness auto
termination
  by (relation "measure (\<lambda>(ds, i, n). nat (i + 1))") auto

declare streak_loop.simps [simp del]

definition streak :: "DrillEntry list \<Rightarrow> nat" where
  "streak ds = streak_loop ds (int (length ds) - 1) 0"

definition progressPercent :: "Settings \<Rightarrow> number" where
  "progressPercent s =
     Math_min (Num 100) (Math_max (Num 0)
       (num_mul (num_div (num_sub (currentCapital s) (startingCapital s))
                    (num_sub (targetCapital s) (startingCapital s)))
            (Num 100)))"

subsection \<open>Callbacks passed to the pages\<close>

definition onAddEgo :: "EgoEntry \<Rightarrow> BlueLockTerminal \<Rightarrow> BlueLockTerminal" where
  "onAddEgo entry st = setEgoEntries (egoEntries st @ [entry]) st"

definition onAddTrade :: "TradeEntry \<Rightarrow> BlueLockTerminal \<Rightarrow> BlueLockTerminal" where
  "onAddTrade entry st = setTradeEntries (tradeEntries st @ [entry]) st"

definition onAddDrill :: "DrillEntry \<Rightarrow> BlueLockTerminal \<Rightarrow> BlueLockTerminal" where
  "onAddDrill entry st = setDrillEntries (drillEntries st @ [entry]) st"

definition onUpdate :: "Settings \<Rightarrow> BlueLockTerminal \<Rightarrow> BlueLockTerminal" where
  "onUpdate v st = setSettings v st"

definition onReset :: "BlueLockTerminal \<Rightarrow> BlueLockTerminal" where
  "onReset st = setDrillEntries [] (setTradeEntries [] (setEgoEntries [] st))"

section \<open>Page components\<close>

text \<open>The two readings of the clock that a submit handler makes.\<close>

record Clock =
  Date_now :: nat
  toISOString :: jsstring

subsection \<open>EgoLog\<close>

record EgoLog =
  score_input :: number
  notes_input :: jsstring

definition EgoLog_handleSubmit ::
  "Clock \<Rightarrow> EgoLog \<Rightarrow> BlueLockTerminal \<Rightarrow> EgoLog \<times> BlueLockTerminal" where
  "EgoLog_handleSubmit clock f st =
     (let entry = \<lparr>ego_id = toString (Date_now clock), ego_date = toISOString clock,
                   score = score_input f, label = getEgoLabel (score_input f),
                   ego_notes = notes_input f\<rparr>
      in (f\<lparr>score_input := Num 50, notes_input := []\<rparr>, onAddEgo entry st))"

subsection \<open>TradeLog\<close>

record TradeLog =
  ticker_input :: jsstring
  entryPrice_input :: jsstring
  exitPrice_input :: jsstring
  shares_input :: jsstring
  result_input :: TradeResult
  trade_notes_input :: jsstring

definition TradeLog_handleSubmit ::
  "Clock \<Rightarrow> TradeLog \<Rightarrow> BlueLockTerminal \<Rightarrow> TradeLog \<times> BlueLockTerminal" where
  "TradeLog_handleSubmit clock f st =
     (let entryP = orElse (parseFloat (entryPrice_input f)) (Num 0);
          exitP = orElse (parseFloat (exitPrice_input f)) (Num 0);
          sh = orElse (parseInt (shares_input f)) (Num 1);
          pnl_value = num_mul (num_sub exitP entryP) sh;
          entry = \<lparr>trade_id = toString (Date_now clock), trade_date = toISOString clock,
                   ticker = toUpperCase (ticker_input f),
                   entryPrice = entryP, exitPrice = exitP, shares = sh,
                   result = result_input f, pnl = pnl_value,
                   trade_notes = trade_notes_input f\<rparr>
      in (\<lparr>ticker_input = [], entryPrice_input = [], exitPrice_input = [],
           shares_input = lit ''1'', result_input = WIN, trade_notes_input = []\<rparr>,
          onAddTrade entry st))"

subsection \<open>WeaponDrills\<close>

record WeaponDrills =
  weapon_input :: jsstring
  intensity_input :: number
  category_input :: DrillCategory

definition WeaponDrills_handleSubmit ::
  "Clock \<Rightarrow> WeaponDrills \<Rightarrow> BlueLockTerminal \<Rightarrow> WeaponDrills \<times> BlueLockTerminal" where
  "WeaponDrills_handleSubmit clock f st =
     (if trim (weapon_input f) = [] then (f, st)
      else
        (let entry = \<lparr>drill_id = toString (Date_now clock), drill_date = toISOString clock,
                      weapon = weapon_input f, intensity = intensity_input f,
                      category = category_input f\<rparr>
         in (f\<lparr>weapon_input := [], intensity_input := Num 5\<rparr>, onAddDrill entry st)))"

subsection \<open>Stats\<close>

definition avgWin :: "TradeEntry list \<Rightarrow> number" where
  "avgWin ts =
     (let wins = len (filter (\<lambda>t. result t = WIN) ts)
      in if num_gt wins (Num 0) then num_div (sumPnl (filter (\<lambda>t. result t = WIN) ts)) wins
         else Num 0)"

definition avgLoss :: "TradeEntry list \<Rightarrow> number" where
  "avgLoss ts =
     (let losses = len (filter (\<lambda>t. result t = LOSS) ts)
      in if num_gt losses (Num 0)
         then Math_abs (num_div (sumPnl (filter (\<lambda>t. result t = LOSS) ts)) losses)
         else Num 0)"

section \<open>The component as a state machine\<close>

text \<open>
  The host's JSON functions at the four types that are stored: a parser returns the value or
  throws, \<open>JSON.stringify\<close> returns the text. The parsers are typed: a stored text that
  parses to a value of another shape (which a later render may fail on) is outside the model.
\<close>

record JSON =
  parse_ego :: "jsstring \<Rightarrow> exn + EgoEntry list"
  parse_trades :: "jsstring \<Rightarrow> exn + TradeEntry list"
  parse_drills :: "jsstring \<Rightarrow> exn + DrillEntry list"
  parse_settings :: "jsstring \<Rightarrow> exn + Settings"
  stringify_ego :: "EgoEntry list \<Rightarrow> jsstring"
  stringify_trades :: "TradeEntry list \<Rightarrow> jsstring"
  stringify_drills :: "DrillEntry list \<Rightarrow> jsstring"
  stringify_settings :: "Settings \<Rightarrow> jsstring"

text \<open>
  What an execution does to the storage, in order: a call of \<open>loadFromStorage\<close> for a key,
  the moment the animation-frame callback has put the loaded values into the state, and a call
  of \<open>saveToStorage\<close> for a key with the text it writes.
\<close>

datatype Action = Load jsstring | LoadCompleted | Save jsstring jsstring

text \<open>
  The running system: the state cells of the component, the window with its storage, the
  console, the callback passed to \<open>requestAnimationFrame\<close> (with the four values its closure
  holds) while it is pending, whether the component is mounted, an exception that escaped an
  effect, and the actions so far.
\<close>

record System =
  component :: BlueLockTerminal
  window :: Window
  console :: "exn list"
  frame :: "(EgoEntry list \<times> TradeEntry list \<times> DrillEntry list \<times> Settings) option"
  mounted :: bool
  uncaught :: "exn option"
  trace :: "Action list"

definition initialSystem :: "Window \<Rightarrow> System" where
  "initialSystem w =
     \<lparr>component = initialState, window = w, console = [], frame = None, mounted = False,
      uncaught = None, trace = []\<rparr>"

text \<open>A call of \<open>saveToStorage\<close> inside the running system.\<close>

definition persist :: "('a \<Rightarrow> jsstring) \<Rightarrow> jsstring \<Rightarrow> 'a \<Rightarrow> System \<Rightarrow> System" where
  "persist JSON_stringify key v sys =
     (case saveToStorage JSON_stringify (window sys) key v of
        (w, errors) \<Rightarrow>
          sys\<lparr>window := w, console := console sys @ errors,
              trace := trace sys @ [Save key (JSON_stringify v)]\<rparr>)"

definition saveEgo :: "JSON \<Rightarrow> System \<Rightarrow> System" where
  "saveEgo J sys =
     (if loaded (component sys)
      then persist (stringify_ego J) STORAGE_KEYS_egoEntries (egoEntries (component sys)) sys
      else sys)"

definition saveTrades :: "JSON \<Rightarrow> System \<Rightarrow> System" where
  "saveTrades J sys =
     (if loaded (component sys)
      then persist (stringify_trades J) STORAGE_KEYS_tradeEntries (tradeEntries (component sys)) sys
      else sys)"

definition saveDrills :: "JSON \<Rightarrow> System \<Rightarrow> System" where
  "saveDrills J sys =
     (if loaded (component sys)
      then persist (stringify_drills J) STORAGE_KEYS_drillEntries (drillEntries (component sys)) sys
      else sys)"

definition saveSettings :: "JSON \<Rightarrow> System \<Rightarrow> System" where
  "saveSettings J sys =
     (if loaded (component sys)
      then persist (stringify_settings J) STORAGE_KEYS_settings (settings (component sys)) sys
      else sys)"

text \<open>
  The effect that runs once, on mount: four loads, then the request for an animation frame.
  An exception out of \<open>loadFromStorage\<close> would escape the effect.
\<close>

definition loadEffect :: "JSON \<Rightarrow> System \<Rightarrow> System" where
  "loadEffect J sys =
     (case loadFromStorage (parse_ego J) (window sys) STORAGE_KEYS_egoEntries [] of
        Inl e \<Rightarrow> sys\<lparr>uncaught := Some e\<rparr>
      | Inr ego_list \<Rightarrow>
     (case loadFromStorage (parse_trades J) (window sys) STORAGE_KEYS_tradeEntries [] of
        Inl e \<Rightarrow> sys\<lparr>uncaught := Some e\<rparr>
      | Inr trade_list \<Rightarrow>
     (case loadFromStorage (parse_drills J) (window sys) STORAGE_KEYS_drillEntries [] of
        Inl e \<Rightarrow> sys\<lparr>uncaught := Some e\<rparr>
      | Inr drill_list \<Rightarrow>
     (case loadFromStorage (parse_settings J) (window sys) STORAGE_KEYS_settings defaultSettings of
        Inl e \<Rightarrow> sys\<lparr>uncaught := Some e\<rparr>
      | Inr storedSettings \<Rightarrow>
          sys\<lparr>frame := Some (ego_list, trade_list, drill_list, storedSettings),
              trace := trace sys @ [Load STORAGE_KEYS_egoEntries, Load STORAGE_KEYS_tradeEntries,
                                    Load STORAGE_KEYS_drillEntries, Load STORAGE_KEYS_settings]\<rparr>))))"

text \<open>The callback of \<open>requestAnimationFrame\<close>: five state updates in one batch.\<close>

definition frameCallback ::
  "EgoEntry list \<times> TradeEntry list \<times> DrillEntry list \<times> Settings \<Rightarrow> System \<Rightarrow> System" where
  "frameCallback vs sys =
     (case vs of
        (ego_list, trade_list, drill_list, storedSettings) \<Rightarrow>
          sys\<lparr>component :=
                setLoaded True (setSettings storedSettings (setDrillEntries drill_list
                  (setTradeEntries trade_list (setEgoEntries ego_list (component sys))))),
              frame := None,
              trace := trace sys @ [LoadCompleted]\<rparr>)"

text \<open>
  The events: the mount, the animation frame, and what the user can do. A submit event carries
  the clock and the content of the page's form at that moment; a settings event carries the
  field edited and the text of the input.
\<close>

datatype SettingsField = F_startingCapital | F_targetCapital | F_weeklyInjection | F_currentCapital

datatype Event =
    Mount
  | AnimationFrame
  | Navigate Page
  | SubmitEgo Clock EgoLog
  | SubmitTrade Clock TradeLog
  | SubmitDrill Clock WeaponDrills
  | ChangeSetting SettingsField jsstring
  | Reset

text \<open>\<open>onChange\<close> of a settings input: \<open>onUpdate({...settings, field: parseInt(value) || 0})\<close>.\<close>

definition SettingsPage_onChange :: "SettingsField \<Rightarrow> jsstring \<Rightarrow> BlueLockTerminal \<Rightarrow> BlueLockTerminal" where
  "SettingsPage_onChange fld text st =
     (let v = orElse (parseInt text) (Num 0)
      in onUpdate
           (case fld of
              F_startingCapital \<Rightarrow> (settings st)\<lparr>startingCapital := v\<rparr>
            | F_targetCapital \<Rightarrow> (settings st)\<lparr>targetCapital := v\<rparr>
            | F_weeklyInjection \<Rightarrow> (settings st)\<lparr>weeklyInjection := v\<rparr>
            | F_currentCapital \<Rightarrow> (settings st)\<lparr>currentCapital := v\<rparr>) st)"

text \<open>
  A page is on screen only once the component is mounted, \<open>loaded\<close> is true and it is the
  current page; before that the content area shows the initialising notice.
\<close>

definition visible :: "Page \<Rightarrow> System \<Rightarrow> bool" where
  "visible p sys = (mounted sys \<and> loaded (component sys) \<and> currentPage (component sys) = p)"

text \<open>
  One event, the render it causes and the effects of that render. A save effect runs after
  the first render and after every render in which its callback changed, that is, when the
  list (or settings) it depends on or \<open>loaded\<close> was set.
\<close>

definition step :: "JSON \<Rightarrow> Event \<Rightarrow> System \<Rightarrow> System" where
  "step J ev sys =
     (if uncaught sys \<noteq> None then sys
      else case ev of
        Mount \<Rightarrow>
          if mounted sys then sys
          else (let sys1 = loadEffect J (sys\<lparr>mounted := True\<rparr>)
                in if uncaught sys1 \<noteq> None then sys1
                   else saveSettings J (saveDrills J (saveTrades J (saveEgo J sys1))))
      | AnimationFrame \<Rightarrow>
          (case frame sys of
             None \<Rightarrow> sys
           | Some vs \<Rightarrow>
               saveSettings J (saveDrills J (saveTrades J (saveEgo J (frameCallback vs sys)))))
      | Navigate p \<Rightarrow>
          if mounted sys then sys\<lparr>component := setCurrentPage p (component sys)\<rparr> else sys
      | SubmitEgo clock f \<Rightarrow>
          if visible ego sys
          then saveEgo J (sys\<lparr>component := snd (EgoLog_handleSubmit clock f (component sys))\<rparr>)
          else sys
      | SubmitTrade clock f \<Rightarrow>
          if visible trades sys
          then saveTrades J (sys\<lparr>component := snd (TradeLog_handleSubmit clock f (component sys))\<rparr>)
          else sys
      | SubmitDrill clock f \<Rightarrow>
          if visible drills sys
          then (if trim (weapon_input f) = [] then sys
                else saveDrills J
                       (sys\<lparr>component := snd (WeaponDrills_handleSubmit clock f (component sys))\<rparr>))
          else sys
      | ChangeSetting fld text \<Rightarrow>
          if visible settings_page sys
          then saveSettings J (sys\<lparr>component := SettingsPage_onChange fld text (component sys)\<rparr>)
          else sys
      | Reset \<Rightarrow>
          if visible settings_page sys
          then saveDrills J (saveTrades J (saveEgo J (sys\<lparr>component := onReset (component sys)\<rparr>)))
          else sys)"

definition run :: "JSON \<Rightarrow> Event list \<Rightarrow> System \<Rightarrow> System" where
  "run J evs sys = foldl (\<lambda>s ev. step J ev s) sys evs"

fun isSave :: "Action \<Rightarrow> bool" where
  "isSave (Save k v) = True"
| "isSave _ = False"

text \<open>The four loads of the mount effect, in the order of the source.\<close>

definition initialLoads :: "Action list" where
  "initialLoads = [Load STORAGE_KEYS_egoEntries, Load STORAGE_KEYS_tradeEntries,
                   Load STORAGE_KEYS_drillEntries, Load STORAGE_KEYS_settings]"

text \<open>
  The trace of a component that has completed its load: the four loads, the completion, and
  then saves only.
\<close>

definition loadedTrace :: "Action list \<Rightarrow> bool" where
  "loadedTrace tr \<longleftrightarrow>
     take 5 tr = initialLoads @ [LoadCompleted] \<and> list_all isSave (drop 5 tr)"

text \<open>
  The invariant of every run. No effect has let an exception escape. Before the mount nothing
  has happened; between the mount and the animation frame the trace is the four loads, and the
  storage and the console are as they were at the start; once \<open>loaded\<close> is true the trace
  is that of a completed load.
\<close>

definition Inv :: "Window \<Rightarrow> System \<Rightarrow> bool" where
  "Inv w0 sys \<longleftrightarrow>
     uncaught sys = None
     \<and> (\<not> mounted sys \<longrightarrow> trace sys = [] \<and> \<not> loaded (component sys) \<and> frame sys = None)
     \<and> (mounted sys \<and> \<not> loaded (component sys) \<longrightarrow> trace sys = initialLoads)
     \<and> (loaded (component sys) \<longrightarrow> mounted sys \<and> frame sys = None \<and> loadedTrace (trace sys))
     \<and> (\<not> loaded (component sys) \<longrightarrow> window sys = w0 \<and> console sys = [])"

section \<open>The statistics as the specification words them\<close>

text \<open>
  The mean of a list of numbers, computed as the program computes a mean: the sum in list
  order, then one division by the length, both in double arithmetic.
\<close>

definition mean :: "number list \<Rightarrow> number" where
  "mean xs = num_div (foldl num_add (Num 0) xs) (len xs)"

text \<open>
  The average loss as specified: the mean of the absolute values of \<open>pnl\<close> over the trades
  whose result is LOSS, and 0 when there is none.
\<close>

definition avgLoss_spec :: "TradeEntry list \<Rightarrow> number" where
  "avgLoss_spec ts =
     (let ls = filter (\<lambda>t. result t = LOSS) ts
      in if ls = [] then Num 0 else mean (map (\<lambda>t. Math_abs (pnl t)) ls))"

text \<open>
  The win rate as specified: the exact percentage of wins, a rational, rounded to the nearest
  integer with a half rounded up; 0 for the empty list.
\<close>

definition exactPercent :: "TradeEntry list \<Rightarrow> rat" where
  "exactPercent ts = 100 * of_nat (length (filter (\<lambda>t. result t = WIN) ts)) / of_nat (length ts)"

definition winRate_spec :: "TradeEntry list \<Rightarrow> int" where
  "winRate_spec ts = (if ts = [] then 0 else \<lfloor>exactPercent ts + 1 / 2\<rfloor>)"

section \<open>Sample data\<close>

text \<open>Concrete records for the examples: only the named field varies.\<close>

definition sampleDrill :: "rat \<Rightarrow> DrillEntry" where
  "sampleDrill i =
     \<lparr>drill_id = lit ''1700000000000'', drill_date = lit ''2023-11-14T22:13:20.000Z'',
      weapon = lit ''Chart reading'', intensity = Num i, category = TRADING\<rparr>"

definition sampleClock :: Clock where
  "sampleClock = \<lparr>Date_now = 1700000000000, toISOString = lit ''2023-11-14T22:13:20.000Z''\<rparr>"

definition sampleStorage :: Storage where
  "sampleStorage =
     \<lparr>items = [(lit ''bluelock_ego'', lit ''[7]''), (lit ''bluelock_trades'', lit ''[{'')],
      accessible = True, quota = 5000000\<rparr>"

text \<open>A parser that knows two documents and rejects every other text.\<close>

definition sampleParse :: "jsstring \<Rightarrow> exn + nat list" where
  "sampleParse s = (if s = lit ''[]'' then Inr [] else if s = lit ''[7]'' then Inr [7] else Inl SyntaxError)"

definition sampleTradeLog :: TradeLog where
  "sampleTradeLog =
     \<lparr>ticker_input = lit ''aapl'', entryPrice_input = [], exitPrice_input = [],
      shares_input = lit ''0'', result_input = LOSS, trade_notes_input = []\<rparr>"

definition sampleEgo :: EgoEntry where
  "sampleEgo =
     \<lparr>ego_id = lit ''1700000000000'', ego_date = lit ''2023-11-14T22:13:20.000Z'', score = Num 72,
      label = lit ''EGOIST'', ego_notes = lit ''Held the plan''\<rparr>"

text \<open>
  A stand-in for the host's JSON functions that knows the empty list and one ego list, and a
  storage that holds that ego list and an empty trade list.
\<close>

definition sampleJSON :: JSON where
  "sampleJSON =
     \<lparr>parse_ego = (\<lambda>s. if s = lit ''[]'' then Inr [] else if s = lit ''[ego]'' then Inr [sampleEgo]
                         else Inl SyntaxError),
      parse_trades = (\<lambda>s. if s = lit ''[]'' then Inr [] else Inl SyntaxError),
      parse_drills = (\<lambda>s. if s = lit ''[]'' then Inr [] else Inl SyntaxError),
      parse_settings = (\<lambda>s. if s = lit ''{default}'' then Inr defaultSettings else Inl SyntaxError),
      stringify_ego = (\<lambda>xs. if xs = [] then lit ''[]'' else if xs = [sampleEgo] then lit ''[ego]''
                              else lit ''[other]''),
      stringify_trades = (\<lambda>xs. if xs = [] then lit ''[]'' else lit ''[other]''),
      stringify_drills = (\<lambda>xs. if xs = [] then lit ''[]'' else lit ''[other]''),
      stringify_settings = (\<lambda>s. if s = defaultSettings then lit ''{default}'' else lit ''{other}'')\<rparr>"

definition persistedStorage :: Storage where
  "persistedStorage =
     \<lparr>items = [(lit ''bluelock_ego'', lit ''[ego]''), (lit ''bluelock_trades'', lit ''[]'')],
      accessible = True, quota = 5000000\<rparr>"

text \<open>
  A trade bought at 100 and sold at \<open>100 + p\<close>, one share, so that its \<open>pnl\<close> is \<open>p\<close>; the
  result is what the user selected.
\<close>

definition sampleTrade :: "TradeResult \<Rightarrow> rat \<Rightarrow> TradeEntry" where
  "sampleTrade r p =
     \<lparr>trade_id = lit ''1700000000000'', trade_date = lit ''2023-11-14T22:13:20.000Z'', ticker = lit ''AAPL'',
      entryPrice = Num 100, exitPrice = Num (100 + p), shares = Num 1, result = r, pnl = Num p,
      trade_notes = []\<rparr>"

section \<open>Properties of the rounding to doubles\<close>

subsection \<open>The binary exponent\<close>

lemma two_powi_pos [simp]: "0 < (2::rat) powi n"
  by (simp add: power_int_def)

lemma two_powi_add: "(2::rat) powi (m + n) = 2 powi m * 2 powi n"
  by (simp add: power_int_add)

lemma two_powi_diff: "(2::rat) powi m / 2 powi n = 2 powi (m - n)"
  by (simp add: power_int_diff)

lemma two_powi_mono: "m \<le> n \<Longrightarrow> (2::rat) powi m \<le> 2 powi n"
  by (rule power_int_increasing) simp_all

lemma two_powi_strict_mono: "m < n \<Longrightarrow> (2::rat) powi m < 2 powi n"
  by (rule power_int_strict_increasing) simp_all

lemma ilog2_bounds:
  assumes "0 < x"
  shows "2 powi (ilog2 x) \<le> x \<and> x < 2 powi (ilog2 x + 1)"
proof -
  define p where "p = fst (quotient_of x)"
  define q where "q = snd (quotient_of x)"
  have pq: "quotient_of x = (p, q)" by (simp add: p_def q_def)
  then have x: "x = of_int p / of_int q" and q: "0 < q"
    by (simp_all add: quotient_of_div quotient_of_denom_pos)
  with assms have p: "0 < p"
    by (simp add: zero_less_divide_iff)
  define bp where "bp = bitlen p"
  define bq where "bq = bitlen q"
  have bp: "2 ^ nat (bp - 1) \<le> p" "p < 2 ^ nat bp" and bq: "2 ^ nat (bq - 1) \<le> q" "q < 2 ^ nat bq"
    using bitlen_bounds [OF p] bitlen_bounds [OF q] by (simp_all add: bp_def bq_def)
  have bp1: "1 \<le> bp" and bq1: "1 \<le> bq"
    using p q by (simp_all add: bp_def bq_def bitlen_alt_def)
  have P1: "(2::rat) powi (bp - 1) \<le> of_int p"
  proof -
    have "(of_int (2 ^ nat (bp - 1)) :: rat) \<le> of_int p" using bp(1) by (simp only: of_int_le_iff)
    then show ?thesis using bp1 by (simp add: power_int_def)
  qed
  have P2: "of_int p < (2::rat) powi bp"
  proof -
    have "(of_int p :: rat) < of_int (2 ^ nat bp)" using bp(2) by (simp only: of_int_less_iff)
    then show ?thesis using bp1 by (simp add: power_int_def)
  qed
  have Q1: "(2::rat) powi (bq - 1) \<le> of_int q"
  proof -
    have "(of_int (2 ^ nat (bq - 1)) :: rat) \<le> of_int q" using bq(1) by (simp only: of_int_le_iff)
    then show ?thesis using bq1 by (simp add: power_int_def)
  qed
  have Q2: "of_int q < (2::rat) powi bq"
  proof -
    have "(of_int q :: rat) < of_int (2 ^ nat bq)" using bq(2) by (simp only: of_int_less_iff)
    then show ?thesis using bq1 by (simp add: power_int_def)
  qed
  have qpos: "(0::rat) < of_int q" using q by simp
  have lower: "2 powi (bp - bq - 1) < x"
  proof -
    have "2 powi (bp - bq - 1) * of_int q < 2 powi (bp - bq - 1) * (2::rat) powi bq"
      using Q2 by simp
    also have "\<dots> = 2 powi (bp - 1)"
      by (simp add: two_powi_add [symmetric])
    also have "\<dots> \<le> of_int p" by (rule P1)
    finally show ?thesis using qpos by (simp add: x pos_less_divide_eq)
  qed
  have upper: "x < 2 powi (bp - bq + 1)"
  proof -
    have "of_int p < (2::rat) powi bp" by (rule P2)
    also have "\<dots> = 2 powi (bp - bq + 1) * 2 powi (bq - 1)"
      by (simp add: two_powi_add [symmetric])
    also have "\<dots> \<le> 2 powi (bp - bq + 1) * of_int q"
      using Q1 by simp
    finally show ?thesis using qpos by (simp add: x pos_divide_less_eq)
  qed
  have il: "ilog2 x = (if 2 powi (bp - bq) \<le> x then bp - bq else bp - bq - 1)"
    by (simp add: ilog2_def Let_def p_def q_def bp_def bq_def)
  show ?thesis
  proof (cases "2 powi (bp - bq) \<le> x")
    case True
    with il upper show ?thesis by simp
  next
    case False
    with il lower show ?thesis by simp
  qed
qed

lemma ilog2_unique:
  assumes "2 powi e \<le> x" and "x < 2 powi (e + 1)"
  shows "ilog2 x = e"
proof -
  have x: "0 < x" using assms(1) two_powi_pos [of e] by linarith
  note b = ilog2_bounds [OF x]
  have "\<not> ilog2 x < e"
  proof
    assume "ilog2 x < e"
    then have "2 powi (ilog2 x + 1) \<le> (2::rat) powi e" by (intro two_powi_mono) simp
    with b assms show False by linarith
  qed
  moreover have "\<not> e < ilog2 x"
  proof
    assume "e < ilog2 x"
    then have "2 powi (e + 1) \<le> (2::rat) powi (ilog2 x)" by (intro two_powi_mono) simp
    with b assms show False by linarith
  qed
  ultimately show ?thesis by simp
qed

lemma ilog2_mono:
  assumes "0 < x" and "x \<le> y"
  shows "ilog2 x \<le> ilog2 y"
proof (rule ccontr)
  assume "\<not> ilog2 x \<le> ilog2 y"
  then have "2 powi (ilog2 y + 1) \<le> (2::rat) powi (ilog2 x)" by (intro two_powi_mono) simp
  moreover have "0 < y" using assms by simp
  ultimately show False
    using ilog2_bounds [OF assms(1)] ilog2_bounds [OF \<open>0 < y\<close>] assms(2) by linarith
qed

subsection \<open>Rounding a magnitude\<close>

lemma rne_cases:
  "roundTiesToEven x = \<lfloor>x\<rfloor> \<and> x - of_int \<lfloor>x\<rfloor> \<le> 1 / 2
   \<or> roundTiesToEven x = \<lfloor>x\<rfloor> + 1 \<and> 1 / 2 \<le> x - of_int \<lfloor>x\<rfloor>"
  by (simp add: roundTiesToEven_def Let_def)

lemma rne_error: "\<bar>of_int (roundTiesToEven x) - x\<bar> \<le> 1 / 2"
proof -
  have "of_int \<lfloor>x\<rfloor> \<le> x" "x < of_int \<lfloor>x\<rfloor> + 1" by linarith+
  with rne_cases [of x] show ?thesis by (auto simp add: abs_le_iff)
qed

lemma rne_of_int [simp]: "roundTiesToEven (of_int k) = k"
  by (simp add: roundTiesToEven_def)

lemma rne_lower: "\<lfloor>x\<rfloor> \<le> roundTiesToEven x"
  using rne_cases [of x] by auto

lemma rne_upper: "roundTiesToEven x \<le> \<lfloor>x\<rfloor> + 1"
  using rne_cases [of x] by auto

lemma rne_mono:
  assumes "x \<le> y"
  shows "roundTiesToEven x \<le> roundTiesToEven y"
proof (cases "\<lfloor>x\<rfloor> = \<lfloor>y\<rfloor>")
  case True
  with assms have "x - of_int \<lfloor>x\<rfloor> \<le> y - of_int \<lfloor>y\<rfloor>" by simp
  with True show ?thesis
    by (simp add: roundTiesToEven_def Let_def)
next
  case False
  with assms have "\<lfloor>x\<rfloor> < \<lfloor>y\<rfloor>"
    using floor_mono [OF assms] by simp
  then have "roundTiesToEven x \<le> \<lfloor>y\<rfloor>"
    using rne_upper [of x] by simp
  then show ?thesis
    using rne_lower [of y] by simp
qed

lemma ulp_pos [simp]: "0 < ulp a"
  by (simp add: ulp_def)

lemma ulp_nonneg [simp]: "0 \<le> ulp a"
  by (simp add: ulp_def less_imp_le)

lemma ulp_nonzero [simp]: "ulp a \<noteq> 0"
  by (simp add: ulp_def)

lemma rm_error: "\<bar>roundMagnitude a - a\<bar> \<le> ulp a / 2"
proof -
  have "\<bar>roundMagnitude a - a\<bar> = \<bar>of_int (roundTiesToEven (a / ulp a)) - a / ulp a\<bar> * ulp a"
  proof -
    have "roundMagnitude a - a = (of_int (roundTiesToEven (a / ulp a)) - a / ulp a) * ulp a"
      using ulp_pos [of a] by (simp add: roundMagnitude_def field_simps)
    then show ?thesis
      using ulp_pos [of a] by (simp add: abs_mult)
  qed
  also have "\<dots> \<le> (1 / 2) * ulp a"
    using rne_error [of "a / ulp a"] ulp_pos [of a] by (intro mult_right_mono) simp_all
  finally show ?thesis by simp
qed

lemma rm_nonneg: "0 \<le> a \<Longrightarrow> 0 \<le> roundMagnitude a"
proof -
  assume "0 \<le> a"
  then have "0 \<le> a / ulp a" using ulp_pos [of a] by simp
  then have "roundTiesToEven 0 \<le> roundTiesToEven (a / ulp a)" by (rule rne_mono)
  then have "0 \<le> roundTiesToEven (a / ulp a)" using rne_of_int [of 0] by simp
  then show ?thesis using ulp_pos [of a] by (simp add: roundMagnitude_def)
qed

text \<open>The rounded magnitude stays within the binade of its argument.\<close>

lemma rm_lower:
  assumes "0 < a" and "- 1022 \<le> ilog2 a"
  shows "2 powi (ilog2 a) \<le> roundMagnitude a"
proof -
  have u: "ulp a = 2 powi (ilog2 a - 52)" using assms by (simp add: ulp_def max_def)
  have "2 powi (ilog2 a) \<le> a" using ilog2_bounds [OF assms(1)] by simp
  then have "2 powi (ilog2 a) / ulp a \<le> a / ulp a"
    using ulp_pos [of a] by (simp add: divide_right_mono)
  moreover have "2 powi (ilog2 a) / ulp a = (2::rat) powi 52"
    by (simp only: u two_powi_diff) simp
  ultimately have "of_int (2 ^ 52) \<le> a / ulp a" by simp
  then have "roundTiesToEven (of_int (2 ^ 52)) \<le> roundTiesToEven (a / ulp a)" by (rule rne_mono)
  then have "(2::int) ^ 52 \<le> roundTiesToEven (a / ulp a)" by (simp only: rne_of_int)
  then have "(of_int (2 ^ 52) :: rat) \<le> of_int (roundTiesToEven (a / ulp a))" by (simp only: of_int_le_iff)
  then have "of_int (2 ^ 52) * ulp a \<le> roundMagnitude a"
    using ulp_pos [of a] by (simp add: roundMagnitude_def)
  moreover have "of_int (2 ^ 52) * ulp a = 2 powi (ilog2 a)"
    by (simp add: u power_int_diff)
  ultimately show ?thesis by simp
qed

lemma rm_upper:
  assumes "0 < a"
  shows "roundMagnitude a \<le> 2 powi (max (ilog2 a) (- 1022) + 1)"
proof -
  define e where "e = max (ilog2 a) (- 1022)"
  have u: "ulp a = 2 powi (e - 52)" by (simp add: ulp_def e_def)
  have "a < 2 powi (ilog2 a + 1)" using ilog2_bounds [OF assms] by simp
  also have "\<dots> \<le> 2 powi (e + 1)" by (rule two_powi_mono) (simp add: e_def)
  finally have "a / ulp a \<le> 2 powi (e + 1) / ulp a"
    using ulp_pos [of a] by (simp add: divide_right_mono)
  moreover have "2 powi (e + 1) / ulp a = (2::rat) powi 53"
    by (simp only: u two_powi_diff) simp
  ultimately have "a / ulp a \<le> of_int (2 ^ 53)" by simp
  then have "roundTiesToEven (a / ulp a) \<le> roundTiesToEven (of_int (2 ^ 53))" by (rule rne_mono)
  then have "roundTiesToEven (a / ulp a) \<le> 2 ^ 53" by (simp only: rne_of_int)
  then have "(of_int (roundTiesToEven (a / ulp a)) :: rat) \<le> of_int (2 ^ 53)" by (simp only: of_int_le_iff)
  then have "roundMagnitude a \<le> of_int (2 ^ 53) * ulp a"
    using ulp_pos [of a] by (simp add: roundMagnitude_def)
  moreover have "of_int (2 ^ 53) * ulp a = 2 powi (e + 1)"
    by (simp add: u power_int_diff two_powi_add)
  ultimately show ?thesis by (simp add: e_def)
qed

lemma rm_mono:
  assumes "0 < a" and "a \<le> b"
  shows "roundMagnitude a \<le> roundMagnitude b"
proof -
  define ea where "ea = max (ilog2 a) (- 1022)"
  define eb where "eb = max (ilog2 b) (- 1022)"
  have b: "0 < b" using assms by simp
  have e_le: "ea \<le> eb" using ilog2_mono [OF assms] by (simp add: ea_def eb_def)
  show ?thesis
  proof (cases "ea = eb")
    case True
    then have u: "ulp a = ulp b" by (simp add: ulp_def ea_def eb_def)
    have "a / ulp b \<le> b / ulp b" using assms ulp_pos [of b] by (simp add: divide_right_mono)
    then have "roundTiesToEven (a / ulp b) \<le> roundTiesToEven (b / ulp b)" by (rule rne_mono)
    then have "(of_int (roundTiesToEven (a / ulp b)) :: rat) \<le> of_int (roundTiesToEven (b / ulp b))"
      by (simp only: of_int_le_iff)
    then show ?thesis using ulp_pos [of b] by (simp add: roundMagnitude_def u)
  next
    case False
    with e_le have lt: "ea < eb" by simp
    then have ib: "eb = ilog2 b" "- 1022 \<le> ilog2 b" by (auto simp add: ea_def eb_def)
    have "roundMagnitude a \<le> 2 powi (ea + 1)" using rm_upper [OF assms(1)] by (simp add: ea_def)
    also have "\<dots> \<le> 2 powi eb" using lt by (intro two_powi_mono) simp
    also have "\<dots> \<le> roundMagnitude b" using rm_lower [OF b ib(2)] ib(1) by simp
    finally show ?thesis .
  qed
qed

text \<open>A magnitude with at most 53 significant bits and an exponent in range is a double.\<close>

lemma rm_fix:
  assumes "0 < m" and "m \<le> 2 ^ 53" and "- 1074 \<le> k"
  shows "roundMagnitude (of_int m * 2 powi k) = of_int m * 2 powi k"
proof -
  define a :: rat where "a = of_int m * 2 powi k"
  define e where "e = max (ilog2 a) (- 1022)"
  have a: "0 < a" using assms(1) by (simp add: a_def)
  have "ilog2 a \<le> k + 53"
  proof (rule ccontr)
    assume "\<not> ilog2 a \<le> k + 53"
    then have "(2::rat) powi (k + 54) \<le> 2 powi (ilog2 a)" by (intro two_powi_mono) simp
    also have "\<dots> \<le> a" using ilog2_bounds [OF a] by simp
    also have "\<dots> \<le> of_int (2 ^ 53) * 2 powi k"
      unfolding a_def using assms(2) by (intro mult_right_mono) (simp_all only: of_int_le_iff, simp)
    also have "\<dots> = 2 powi (k + 53)" by (simp add: two_powi_add)
    finally show False using two_powi_strict_mono [of "k + 53" "k + 54"] by simp
  qed
  have "a < 2 powi (ilog2 a + 1)" using ilog2_bounds [OF a] by simp
  have ek: "e \<le> k + 53" using \<open>ilog2 a \<le> k + 53\<close> assms(3) by (simp add: e_def)
  show ?thesis
  proof (cases "e \<le> k + 52")
    case True
    define j where "j = nat (k + 52 - e)"
    have u: "ulp a = 2 powi (e - 52)" by (simp add: ulp_def e_def)
    have "a / ulp a = of_int m * (2 powi k / 2 powi (e - 52))" unfolding u by (simp add: a_def)
    also have "2 powi k / 2 powi (e - 52) = (2::rat) powi (int j)"
      using True by (simp only: two_powi_diff j_def) (simp add: algebra_simps)
    also have "of_int m * (2::rat) powi (int j) = of_int (m * 2 ^ j)" by simp
    finally have "roundTiesToEven (a / ulp a) = m * 2 ^ j" by (simp only: rne_of_int)
    then have "roundMagnitude a = of_int (m * 2 ^ j) * ulp a" by (simp add: roundMagnitude_def)
    also have "\<dots> = of_int m * (2 powi (int j) * 2 powi (e - 52))" by (simp add: u)
    also have "2 powi (int j) * 2 powi (e - 52) = (2::rat) powi k"
      using True by (simp add: j_def two_powi_add [symmetric])
    finally show ?thesis by (simp add: a_def)
  next
    case False
    with ek have e: "e = k + 53" by simp
    with assms(3) have il: "ilog2 a = k + 53" by (auto simp add: e_def max_def split: if_splits)
    have "2 powi (k + 53) \<le> a" using ilog2_bounds [OF a] il by simp
    then have "of_int (2 ^ 53) * (2::rat) powi k \<le> of_int m * 2 powi k"
      by (simp add: a_def two_powi_add)
    then have "(of_int (2 ^ 53) :: rat) \<le> of_int m"
      using two_powi_pos [of k] by (simp only: mult_le_cancel_right_pos)
    then have "2 ^ 53 \<le> m" by (simp only: of_int_le_iff)
    with assms(2) have m: "m = 2 ^ 53" by simp
    have u: "ulp a = 2 powi (k + 1)" by (simp add: ulp_def e_def [symmetric] e add.commute)
    have "a / ulp a = of_int (2 ^ 53) * (2 powi k / 2 powi (k + 1))" unfolding u by (simp add: a_def m)
    also have "2 powi k / 2 powi (k + 1) = (1 / 2 :: rat)"
      by (simp only: two_powi_diff) simp
    also have "of_int (2 ^ 53) * (1 / 2 :: rat) = of_int (2 ^ 52)" by simp
    finally have "roundTiesToEven (a / ulp a) = 2 ^ 52" by (simp only: rne_of_int)
    then have "roundMagnitude a = of_int (2 ^ 52) * 2 powi (k + 1)" by (simp only: roundMagnitude_def u)
    also have "\<dots> = of_int (2 ^ 53) * 2 powi k" by (simp add: two_powi_add)
    finally show ?thesis by (simp add: a_def m)
  qed
qed

subsection \<open>Rounding a rational\<close>

lemma toDouble_0 [simp]: "toDouble 0 = Num 0"
  by (simp add: toDouble_def)

lemma toDouble_pos:
  "0 < x \<Longrightarrow> toDouble x
     = (if 2 powi 1024 \<le> roundMagnitude x then Infinity else Num (roundMagnitude x))"
  by (simp add: toDouble_def Let_def)

lemma toDouble_minus: "toDouble (- x) = num_neg (toDouble x)"
  by (cases "x = 0") (auto simp add: toDouble_def Let_def sgn_if)

lemma toDouble_nonneg:
  assumes "0 \<le> x"
  shows "toDouble x = Infinity \<or> (\<exists>y. toDouble x = Num y \<and> 0 \<le> y)"
proof (cases "x = 0")
  case True
  then show ?thesis by simp
next
  case False
  with assms have "0 < x" by simp
  then show ?thesis
    using rm_nonneg [of x] by (simp add: toDouble_pos)
qed

lemma num_le_neg: "num_le (num_neg a) (num_neg b) = num_le b a"
  by (cases a; cases b) simp_all

lemma num_le_refl_iff: "num_le a a \<longleftrightarrow> a \<noteq> NaN"
  by (cases a) simp_all

lemma toDouble_not_NaN [simp]: "toDouble x \<noteq> NaN"
  by (simp add: toDouble_def Let_def)

lemma toDouble_mono_pos:
  assumes "0 < x" and "x \<le> y"
  shows "num_le (toDouble x) (toDouble y)"
proof -
  have y: "0 < y" using assms by simp
  have "roundMagnitude x \<le> roundMagnitude y" using assms by (rule rm_mono)
  then show ?thesis
    by (auto simp add: toDouble_pos [OF assms(1)] toDouble_pos [OF y])
qed

lemma num_le_nonpos_nonneg:
  assumes "a = NegInfinity \<or> (\<exists>y. a = Num y \<and> y \<le> 0)"
    and "b = Infinity \<or> (\<exists>y. b = Num y \<and> 0 \<le> y)"
  shows "num_le a b"
  using assms by auto

lemma toDouble_nonpos:
  assumes "x \<le> 0"
  shows "toDouble x = NegInfinity \<or> (\<exists>y. toDouble x = Num y \<and> y \<le> 0)"
proof -
  have "0 \<le> - x" using assms by simp
  then have "toDouble (- x) = Infinity \<or> (\<exists>y. toDouble (- x) = Num y \<and> 0 \<le> y)"
    by (rule toDouble_nonneg)
  then show ?thesis
    by (cases "toDouble x") (auto simp add: toDouble_minus)
qed

lemma toDouble_mono:
  assumes "x \<le> y"
  shows "num_le (toDouble x) (toDouble y)"
proof -
  consider "0 < x" | "x \<le> 0" "0 \<le> y" | "y < 0" by linarith
  then show ?thesis
  proof cases
    case 1
    then show ?thesis using assms by (rule toDouble_mono_pos)
  next
    case 2
    then show ?thesis
      by (intro num_le_nonpos_nonneg toDouble_nonpos toDouble_nonneg)
  next
    case 3
    then have "0 < - y" "- y \<le> - x" using assms by simp_all
    then have "num_le (toDouble (- y)) (toDouble (- x))" by (rule toDouble_mono_pos)
    then show ?thesis by (simp add: toDouble_minus num_le_neg)
  qed
qed

lemma toDouble_fix:
  assumes "0 < m" and "m \<le> 2 ^ 53" and "- 1074 \<le> k" and "of_int m * 2 powi k < (2::rat) powi 1024"
  shows "toDouble (of_int m * 2 powi k) = Num (of_int m * 2 powi k)"
proof -
  have "0 < (of_int m * 2 powi k :: rat)" using assms(1) by simp
  then show ?thesis
    using assms(4) by (simp only: toDouble_pos rm_fix [OF assms(1-3)]) simp
qed

lemma toDouble_of_int:
  assumes "\<bar>k\<bar> \<le> 2 ^ 53"
  shows "toDouble (of_int k) = Num (of_int k)"
proof -
  have pos: "toDouble (of_int j) = Num (of_int j)" if "0 < j" "j \<le> 2 ^ 53" for j
  proof -
    have "(of_int j :: rat) \<le> of_int (2 ^ 53)" using that(2) by (simp only: of_int_le_iff)
    then have "(of_int j * 2 powi 0 :: rat) < 2 powi 1024" by simp
    from toDouble_fix [OF that _ this] show ?thesis by simp
  qed
  consider "k = 0" | "0 < k" | "k < 0" by linarith
  then show ?thesis
  proof cases
    case 1
    then show ?thesis by simp
  next
    case 2
    with assms show ?thesis by (simp add: pos)
  next
    case 3
    with assms have "toDouble (of_int (- k)) = Num (of_int (- k))" by (intro pos) simp_all
    then have "num_neg (toDouble (of_int k)) = Num (- of_int k)" by (simp add: toDouble_minus)
    then show ?thesis by (cases "toDouble (of_int k)") simp_all
  qed
qed

lemma toDouble_of_nat: "n \<le> 2 ^ 53 \<Longrightarrow> toDouble (of_nat n) = Num (of_nat n)"
  using toDouble_of_int [of "int n"] by simp

lemma toDouble_numeral [simp]:
  "numeral w \<le> (2 ^ 53 :: int) \<Longrightarrow> toDouble (numeral w) = Num (numeral w)"
  "numeral w \<le> (2 ^ 53 :: int) \<Longrightarrow> toDouble (- numeral w) = Num (- numeral w)"
  using toDouble_of_int [of "numeral w"] toDouble_of_int [of "- numeral w"] by simp_all

lemma toDouble_1 [simp]: "toDouble 1 = Num 1"
  using toDouble_of_int [of 1] by simp

text \<open>The relative error of rounding in the normal range.\<close>

lemma rm_relative_error:
  assumes "0 < a" and "- 1022 \<le> ilog2 a"
  shows "\<bar>roundMagnitude a - a\<bar> \<le> a * 2 powi (- 53)"
proof -
  have u: "ulp a = 2 powi (ilog2 a - 52)" using assms(2) by (simp add: ulp_def max_def)
  have "\<bar>roundMagnitude a - a\<bar> \<le> ulp a / 2" by (rule rm_error)
  also have "ulp a / 2 = 2 powi (ilog2 a) * 2 powi (- 53)"
  proof -
    have "ulp a / 2 = 2 powi (ilog2 a - 52) / 2 powi 1" by (simp add: u)
    also have "\<dots> = 2 powi (ilog2 a + (- 53))" by (simp only: two_powi_diff) simp
    finally show ?thesis by (simp only: two_powi_add)
  qed
  also have "\<dots> \<le> a * 2 powi (- 53)"
    using ilog2_bounds [OF assms(1)] by (intro mult_right_mono) simp_all
  finally show ?thesis .
qed

text \<open>Every double is a multiple of the smallest positive double.\<close>

lemma isDouble_grid:
  assumes "isDouble q"
  shows "\<exists>j. q = of_int j * 2 powi (- 1074)"
proof (cases "q = 0")
  case True
  then have "q = of_int 0 * 2 powi (- 1074)" by simp
  then show ?thesis by blast
next
  case False
  define g :: rat where "g = 2 powi (- 1074)"
  define e where "e = max (ilog2 \<bar>q\<bar>) (- 1022)"
  define n where "n = roundTiesToEven (\<bar>q\<bar> / ulp \<bar>q\<bar>)"
  define N where "N = nat (e + 1022)"
  define sg :: int where "sg = (if 0 < q then 1 else - 1)"
  have "q = sgn q * roundMagnitude \<bar>q\<bar>"
    using assms False by (auto simp add: isDouble_def toDouble_def Let_def split: if_splits)
  then have q: "q = sgn q * (of_int n * ulp \<bar>q\<bar>)" by (simp add: roundMagnitude_def n_def)
  have "- 1022 \<le> e" by (simp add: e_def)
  then have "e - 52 = int N + (- 1074)" by (simp add: N_def)
  then have "ulp \<bar>q\<bar> = 2 powi (int N) * g"
    by (simp only: ulp_def e_def [symmetric] two_powi_add [symmetric] g_def)
  then have u: "ulp \<bar>q\<bar> = of_int (2 ^ N) * g" by simp
  have sg: "sgn q = of_int sg"
    using False by (simp add: sgn_if sg_def)
  have "q = of_int sg * (of_int n * (of_int (2 ^ N) * g))"
    using q by (simp only: u sg)
  also have "\<dots> = of_int (sg * n * 2 ^ N) * g"
    by (simp only: of_int_mult mult.assoc)
  finally show ?thesis unfolding g_def by blast
qed

lemma toDouble_smallest [simp]: "toDouble (2 powi (- 1074)) = Num (2 powi (- 1074))"
proof -
  have "(of_int 1 * 2 powi (- 1074) :: rat) < 2 powi 1024"
    using two_powi_strict_mono [of "- 1074" 1024] by simp
  from toDouble_fix [OF _ _ _ this] show ?thesis by simp
qed

lemma double_gap:
  assumes "isDouble s" and "isDouble t" and "s < t"
  shows "2 powi (- 1074) \<le> t - s"
proof -
  from assms obtain i j where s: "s = of_int i * 2 powi (- 1074)" and t: "t = of_int j * 2 powi (- 1074)"
    using isDouble_grid by blast
  with assms(3) have "(of_int i :: rat) < of_int j"
    using two_powi_pos [of "- 1074"] by (simp only: mult_less_cancel_right_pos)
  then have "i + 1 \<le> j" by simp
  then have "(of_int (i + 1) :: rat) \<le> of_int j" by (simp only: of_int_le_iff)
  then have "of_int (i + 1) * 2 powi (- 1074) \<le> (of_int j :: rat) * 2 powi (- 1074)"
    by (intro mult_right_mono) simp_all
  then show ?thesis by (simp add: s t algebra_simps)
qed

text \<open>The difference of two distinct doubles does not round to zero.\<close>

lemma num_sub_doubles_pos:
  assumes "isDouble s" and "isDouble t" and "s < t"
  shows "toDouble (t - s) = Infinity \<or> (\<exists>d. toDouble (t - s) = Num d \<and> 0 < d)"
proof -
  have "num_le (toDouble (2 powi (- 1074))) (toDouble (t - s))"
    using double_gap [OF assms] by (rule toDouble_mono)
  then have "num_le (Num (2 powi (- 1074))) (toDouble (t - s))" by (simp only: toDouble_smallest)
  then show ?thesis
    using two_powi_pos [of "- 1074"] by (cases "toDouble (t - s)") (auto simp del: two_powi_pos)
qed

subsection \<open>Evaluating a rounding, and its error in the normal range\<close>

lemma rne_evalI:
  assumes "\<bar>x - of_int m\<bar> < 1 / 2"
  shows "roundTiesToEven x = m"
proof -
  have "\<bar>(of_int (roundTiesToEven x) :: rat) - of_int m\<bar> < 1"
    using rne_error [of x] assms by linarith
  then have "\<bar>(of_int (roundTiesToEven x - m) :: rat)\<bar> < 1" by simp
  then have "\<bar>roundTiesToEven x - m\<bar> < 1"
    by (simp only: of_int_abs [symmetric] of_int_less_1_iff)
  then show ?thesis by simp
qed

lemma toDouble_evalI:
  assumes "2 powi e \<le> x" and "x < 2 powi (e + 1)" and "- 1022 \<le> e" and "e \<le> 1022"
    and "\<bar>x / 2 powi (e - 52) - of_int m\<bar> < 1 / 2"
  shows "toDouble x = Num (of_int m * 2 powi (e - 52))"
proof -
  have x: "0 < x" using assms(1) two_powi_pos [of e] by linarith
  have il: "ilog2 x = e" using assms(1,2) by (rule ilog2_unique)
  have u: "ulp x = 2 powi (e - 52)" using assms(3) by (simp add: ulp_def il max_def)
  have rm: "roundMagnitude x = of_int m * 2 powi (e - 52)"
    by (simp only: roundMagnitude_def u rne_evalI [OF assms(5)])
  have "roundMagnitude x \<le> 2 powi (e + 1)"
    using rm_upper [OF x] assms(3) by (simp add: il max_def)
  also have "\<dots> < 2 powi 1024"
    using assms(4) by (intro two_powi_strict_mono) simp
  finally have "\<not> 2 powi 1024 \<le> roundMagnitude x" by simp
  then show ?thesis
    by (simp only: toDouble_pos [OF x] rm if_False)
qed

lemma ilog2_ge:
  assumes "2 powi e \<le> x"
  shows "e \<le> ilog2 x"
proof (rule ccontr)
  assume "\<not> e \<le> ilog2 x"
  then have "2 powi (ilog2 x + 1) \<le> (2::rat) powi e" by (intro two_powi_mono) simp
  moreover have "0 < x" using assms two_powi_pos [of e] by linarith
  ultimately show False using ilog2_bounds [of x] assms by linarith
qed

lemma ilog2_less:
  assumes "0 < x" and "x < 2 powi e"
  shows "ilog2 x < e"
proof (rule ccontr)
  assume "\<not> ilog2 x < e"
  then have "2 powi e \<le> (2::rat) powi (ilog2 x)" by (intro two_powi_mono) simp
  then show False using ilog2_bounds [OF assms(1)] assms(2) by linarith
qed

text \<open>Rounding in the normal range: a finite positive result with relative error \<open>2^-53\<close>.\<close>

lemma toDouble_normal:
  assumes "2 powi (- 1022) \<le> x" and "x < 2 powi 1023"
  shows "\<exists>y. toDouble x = Num y \<and> 0 < y \<and> \<bar>y - x\<bar> \<le> x * 2 powi (- 53)"
proof -
  have x: "0 < x" using assms(1) two_powi_pos [of "- 1022"] by linarith
  have lo: "- 1022 \<le> ilog2 x" using assms(1) by (rule ilog2_ge)
  have hi: "ilog2 x < 1023" using x assms(2) by (rule ilog2_less)
  have "roundMagnitude x \<le> 2 powi (ilog2 x + 1)"
    using rm_upper [OF x] lo by (simp add: max_def)
  also have "\<dots> < 2 powi 1024"
    using hi by (intro two_powi_strict_mono) simp
  finally have "\<not> 2 powi 1024 \<le> roundMagnitude x" by simp
  then have "toDouble x = Num (roundMagnitude x)"
    by (simp only: toDouble_pos [OF x] if_False)
  moreover have "0 < roundMagnitude x"
    using rm_lower [OF x lo] two_powi_pos [of "ilog2 x"] by linarith
  moreover have "\<bar>roundMagnitude x - x\<bar> \<le> x * 2 powi (- 53)"
    using x lo by (rule rm_relative_error)
  ultimately show ?thesis by blast
qed

text \<open>The two roundings of \<open>q * 100\<close> for a quotient \<open>q\<close> between \<open>2^-1000\<close> and 1.\<close>

lemma percent_error:
  assumes "2 powi e \<le> q" and "- 1000 \<le> e" and "q \<le> 1"
  shows "\<exists>b. num_mul (toDouble q) (Num 100) = Num b \<and> \<bar>b - 100 * q\<bar> \<le> 2 powi (- 44)"
proof -
  define u :: rat where "u = 2 powi (- 53)"
  have u: "0 < u" "u \<le> 1 / 2 ^ 53" by (simp_all add: u_def)
  have q0: "0 < q" using assms(1) two_powi_pos [of e] by linarith
  have "2 powi (- 1022) \<le> (2::rat) powi e" using assms(2) by (intro two_powi_mono) simp
  with assms(1) have q1: "2 powi (- 1022) \<le> q" by linarith
  have "(1::rat) < 2 powi 1023" using two_powi_strict_mono [of 0 1023] by simp
  with assms(3) have q2: "q < 2 powi 1023" by linarith
  from toDouble_normal [OF q1 q2] obtain a
    where a: "toDouble q = Num a" "0 < a" "\<bar>a - q\<bar> \<le> q * u"
    unfolding u_def by blast
  have qu: "q * u \<le> u" using assms(3) u(1) by simp
  have a_hi: "a \<le> 1 + u" using a(3) qu assms(3) by linarith
  have "q * u \<le> q * (1 / 2)" using u(2) q0 by (intro mult_left_mono) simp_all
  then have a_lo: "q / 2 \<le> a" using a(3) by linarith
  have "(2::rat) powi (e - 1) = 2 powi e / 2 powi 1" by (simp only: two_powi_diff)
  then have "2 powi (e - 1) \<le> q / 2" using assms(1) by simp
  then have "2 powi (e - 1) \<le> a * 100" using a_lo a(2) by linarith
  moreover have "2 powi (- 1022) \<le> (2::rat) powi (e - 1)"
    using assms(2) by (intro two_powi_mono) simp
  ultimately have x1: "2 powi (- 1022) \<le> a * 100" by linarith
  have "a * 100 \<le> 200" using a_hi u(2) by simp
  moreover have "(200::rat) < 2 powi 1023" using two_powi_strict_mono [of 8 1023] by simp
  ultimately have x2: "a * 100 < 2 powi 1023" by linarith
  from toDouble_normal [OF x1 x2] obtain b
    where b: "toDouble (a * 100) = Num b" "\<bar>b - a * 100\<bar> \<le> a * 100 * u"
    unfolding u_def by blast
  have "a * 100 * u \<le> 200 * u" using \<open>a * 100 \<le> 200\<close> u(1) by simp
  then have "\<bar>b - a * 100\<bar> \<le> 200 * u" using b(2) by linarith
  moreover have "\<bar>a * 100 - 100 * q\<bar> \<le> 100 * u" using a(3) qu by linarith
  ultimately have "\<bar>b - 100 * q\<bar> \<le> 300 * u" by linarith
  also have "\<dots> \<le> 2 powi (- 44)" by (simp add: u_def)
  finally have "\<bar>b - 100 * q\<bar> \<le> 2 powi (- 44)" .
  moreover have "num_mul (toDouble q) (Num 100) = Num b" by (simp add: a(1) b(1))
  ultimately show ?thesis by blast
qed

text \<open>
  The floor of a fraction \<open>N / D\<close> under a perturbation smaller than \<open>1 / D\<close>: unchanged
  unless the fraction is an integer, and then off by at most one downward.
\<close>

lemma floor_perturbed:
  fixes N D :: int and d :: rat
  assumes "0 < D" and "\<bar>d\<bar> < 1 / of_int D"
  shows "\<not> D dvd N \<Longrightarrow> \<lfloor>of_int N / of_int D + d\<rfloor> = \<lfloor>(of_int N / of_int D :: rat)\<rfloor>"
    and "D dvd N \<Longrightarrow> \<lfloor>of_int N / of_int D + d\<rfloor> = \<lfloor>(of_int N / of_int D :: rat)\<rfloor>
           \<or> \<lfloor>of_int N / of_int D + d\<rfloor> = \<lfloor>(of_int N / of_int D :: rat)\<rfloor> - 1"
proof -
  define k where "k = N div D"
  define r where "r = N mod D"
  have N: "N = k * D + r" by (simp add: k_def r_def)
  have r: "0 \<le> r" "r < D" using assms(1) by (simp_all add: r_def)
  have Dpos: "(0::rat) < of_int D" using assms(1) by simp
  have frac: "(of_int N / of_int D :: rat) = of_int k + of_int r / of_int D"
    using Dpos by (simp add: N field_simps)
  have fl: "\<lfloor>(of_int N / of_int D :: rat)\<rfloor> = k"
    by (simp add: k_def floor_divide_of_int_eq)
  {
    assume "\<not> D dvd N"
    then have "r \<noteq> 0" by (simp add: r_def dvd_eq_mod_eq_0)
    with r have "1 \<le> r" "r \<le> D - 1" by simp_all
    then have "(of_int 1 :: rat) \<le> of_int r" "(of_int r :: rat) \<le> of_int (D - 1)"
      by (simp_all only: of_int_le_iff)
    then have "1 / of_int D \<le> (of_int r / of_int D :: rat)" "(of_int r / of_int D :: rat) \<le> 1 - 1 / of_int D"
      using Dpos by (simp_all add: field_simps)
    with assms(2) have "0 \<le> of_int r / of_int D + d" "of_int r / of_int D + d < 1" by linarith+
    then have "of_int k \<le> of_int N / of_int D + d" "of_int N / of_int D + d < of_int k + 1"
      by (simp_all add: frac)
    then have "\<lfloor>of_int N / of_int D + d\<rfloor> = k" by (rule floor_unique)
    then show "\<lfloor>of_int N / of_int D + d\<rfloor> = \<lfloor>(of_int N / of_int D :: rat)\<rfloor>" by (simp add: fl)
  }
  {
    assume "D dvd N"
    then have "r = 0" by (simp add: r_def)
    then have eq: "(of_int N / of_int D :: rat) = of_int k" by (simp add: frac)
    have "(1 :: rat) \<le> of_int D" using assms(1) by simp
    then have "1 / of_int D \<le> (1::rat)" using Dpos by (simp add: field_simps)
    with assms(2) have d: "- 1 < d" "d < 1" by linarith+
    show "\<lfloor>of_int N / of_int D + d\<rfloor> = \<lfloor>(of_int N / of_int D :: rat)\<rfloor>
           \<or> \<lfloor>of_int N / of_int D + d\<rfloor> = \<lfloor>(of_int N / of_int D :: rat)\<rfloor> - 1"
    proof (cases "0 \<le> d")
      case True
      with d have "of_int k \<le> of_int k + d" "of_int k + d < of_int k + 1" by simp_all
      then have "\<lfloor>of_int k + d\<rfloor> = k" by (rule floor_unique)
      then show ?thesis by (simp add: eq)
    next
      case False
      with d have "of_int (k - 1) \<le> of_int k + d" "of_int k + d < of_int (k - 1) + 1" by simp_all
      then have "\<lfloor>of_int k + d\<rfloor> = k - 1" by (rule floor_unique)
      then show ?thesis by (simp add: eq)
    qed
  }
qed

section \<open>String literals\<close>

text \<open>A literal is determined by its characters: a character is a code unit below 256.\<close>

lemma lit_Nil [simp]: "lit [] = []"
  by (simp add: lit_def)

lemma lit_Cons: "lit (c # s) = of_char c # lit s"
  by (simp add: lit_def)

lemma unat_of_char: "unat (of_char c :: codeUnit) = of_char c"
proof -
  have "(of_char c :: nat) mod 256 = of_char c" by (rule of_char_mod_256)
  then have lt: "(of_char c :: nat) < 256" by (metis mod_less_divisor zero_less_numeral)
  have "(256 :: nat) \<le> 2 ^ LENGTH(16)" by simp
  with lt have "(of_char c :: nat) < 2 ^ LENGTH(16)" by (rule less_le_trans)
  then have "unat (of_nat (of_char c) :: codeUnit) = of_char c"
    by (simp add: unat_of_nat take_bit_nat_eq_self del: of_nat_of_char)
  then show ?thesis by (simp only: of_nat_of_char)
qed

lemma of_char_codeUnit_eq_iff: "(of_char c :: codeUnit) = of_char d \<longleftrightarrow> c = d"
proof
  assume "(of_char c :: codeUnit) = of_char d"
  then have "unat (of_char c :: codeUnit) = unat (of_char d :: codeUnit)" by simp
  then show "c = d" by (simp only: unat_of_char of_char_eq_iff)
qed simp

lemma lit_eq_iff [simp]: "lit a = lit b \<longleftrightarrow> a = b"
proof (induction a arbitrary: b)
  case Nil
  then show ?case by (cases b) (simp_all add: lit_Cons)
next
  case (Cons c a)
  then show ?case by (cases b) (simp_all add: lit_Cons of_char_codeUnit_eq_iff)
qed

lemma lit_eq_Nil_iff [simp]: "lit a = [] \<longleftrightarrow> a = []" "[] = lit a \<longleftrightarrow> a = []"
  by (simp_all add: lit_def)

section \<open>Classification\<close>

lemma tier_labels:
  "tier (lit ''DONKEY'') = 1" "tier (lit ''HALF-BAKED'') = 2" "tier (lit ''PUPPET'') = 3" "tier (lit ''HUNGRY'') = 4"
  "tier (lit ''EGOIST'') = 5" "tier (lit ''MONSTER'') = 6" "tier (lit ''DEVOUR'') = 7"
  by (simp_all add: tier_def egoTiers_def)

lemma tier_getEgoLabel: "tier (getEgoLabel (Num (of_int s))) = classify s"
  by (simp add: getEgoLabel_def classify_def tier_labels)

lemma classify_mono: "s \<le> t \<Longrightarrow> classify s \<le> classify t"
  by (simp add: classify_def)

text \<open>
  Claim C3. For every integer score \<open>s\<close> in \<open>[0, 100]\<close> the label that \<open>getEgoLabel\<close>
  returns is one of the seven labels, which are pairwise distinct; its tier is the one the
  inclusive upper bounds 20, 40, 55, 70, 85, 95 determine (tier 7 above 95); and the tier does
  not decrease when the score increases.
\<close>

theorem getEgoLabel_tiers:
  assumes "0 \<le> s" and "s \<le> 100"
  shows "getEgoLabel (Num (of_int s)) \<in> set egoTiers
       \<and> distinct egoTiers \<and> length egoTiers = 7
       \<and> tier (getEgoLabel (Num (of_int s))) = classify s
       \<and> (\<forall>t. s \<le> t \<and> t \<le> 100 \<longrightarrow>
            tier (getEgoLabel (Num (of_int s))) \<le> tier (getEgoLabel (Num (of_int t))))"
proof -
  have "getEgoLabel (Num (of_int s)) \<in> set egoTiers"
    by (simp add: getEgoLabel_def egoTiers_def)
  moreover have "distinct egoTiers \<and> length egoTiers = 7"
    by (simp add: egoTiers_def)
  ultimately show ?thesis
    by (simp add: tier_getEgoLabel classify_mono)
qed

theorem getEgoLabel_tiers_witness:
  "(0::int) \<le> 55 \<and> (55::int) \<le> 100
   \<and> tier (getEgoLabel (Num (of_int 55))) = 3
   \<and> tier (getEgoLabel (Num (of_int 55))) \<le> tier (getEgoLabel (Num (of_int 56)))"
proof -
  have h: "(0::int) \<le> 55" "(55::int) \<le> 100"
    by simp_all
  have a: "tier (getEgoLabel (Num (of_int 55))) = classify 55"
    and b: "\<forall>t. 55 \<le> t \<and> t \<le> 100 \<longrightarrow>
              tier (getEgoLabel (Num (of_int 55))) \<le> tier (getEgoLabel (Num (of_int t)))"
    using getEgoLabel_tiers [OF h] by blast+
  from b have "tier (getEgoLabel (Num (of_int 55))) \<le> tier (getEgoLabel (Num (of_int 56)))"
    by (rule allE [of _ 56]) simp
  with a show ?thesis
    by (simp add: classify_def)
qed

section \<open>Win rate\<close>

lemma num_div_23_40: "num_div (Num 23) (Num 40) = Num (5179139571476070 / 9007199254740992)"
proof -
  have "toDouble (23 / 40) = Num (of_int 5179139571476070 * 2 powi (- 1 - 52))"
    by (rule toDouble_evalI) simp_all
  then show ?thesis by simp
qed

lemma num_mul_23_40_100:
  "num_mul (Num (5179139571476070 / 9007199254740992)) (Num 100)
     = Num (8092405580431359 / 140737488355328)"
proof -
  have "toDouble (5179139571476070 / 9007199254740992 * 100)
      = Num (of_int 8092405580431359 * 2 powi (5 - 52))"
    by (rule toDouble_evalI) simp_all
  then show ?thesis by (simp only: num_mul.simps) simp
qed

lemma winRate_nonempty:
  assumes "ts \<noteq> []"
  shows "winRate ts = Math_round (num_mul (toDouble (of_nat (length (filter (\<lambda>t. result t = WIN) ts))
           / of_nat (length ts))) (Num 100))"
  using assms by (simp add: winRate_def len_def num_gt_def)

lemma winPercent_nonempty:
  assumes "ts \<noteq> []"
  shows "winPercent ts = num_mul (toDouble (of_nat (length (filter (\<lambda>t. result t = WIN) ts))
           / of_nat (length ts))) (Num 100)"
  using assms by (simp add: winPercent_def len_def)

lemma toDouble_half_int:
  assumes "0 < m" and "m \<le> 2 ^ 53"
  shows "toDouble (of_int m / 2) = Num (of_int m / 2)"
proof -
  have "(of_int m :: rat) \<le> of_int (2 ^ 53)" using assms(2) by (simp only: of_int_le_iff)
  then have "(of_int m :: rat) \<le> 2 ^ 53" by simp
  moreover have "(2::rat) ^ 53 < 2 powi 1024" using two_powi_strict_mono [of 53 1024] by simp
  moreover have "(of_int m * 2 powi (- 1) :: rat) \<le> of_int m"
    using assms(1) by (simp add: power_int_minus)
  ultimately have "(of_int m * 2 powi (- 1) :: rat) < 2 powi 1024" by linarith
  from toDouble_fix [OF assms(1) assms(2) _ this] show ?thesis
    by (simp add: power_int_minus field_simps)
qed

text \<open>
  Claim C9, as amended. For every list of trades (an array has fewer than \<open>2^32\<close> elements)
  the win rate is 0 when the list is empty, and otherwise \<open>Math.round\<close>, which rounds a
  half up, of the percentage that the program computes in double arithmetic, the quotient and
  the product each rounded to a double. When the exact percentage of wins is not halfway
  between two integers, the win rate is the exact percentage rounded half up. At such a tie
  it is that value too if the computed percentage has not fallen below the exact one, and one
  less if it has; it has not whenever the quotient of the two counts is not rounded down, as
  when it is a double itself (1 win in 8 trades gives 13). Over WIN, WIN, LOSS it is 67.
\<close>

theorem winRate_rounding:
  assumes "length ts < 2 ^ 32"
  shows "(ts = [] \<longrightarrow> winRate ts = Num 0)
       \<and> (ts \<noteq> [] \<longrightarrow> winRate ts = Math_round (winPercent ts))
       \<and> (ts \<noteq> [] \<and> of_int \<lfloor>exactPercent ts + 1 / 2\<rfloor> \<noteq> exactPercent ts + 1 / 2 \<longrightarrow>
            winRate ts = Num (of_int (winRate_spec ts)))
       \<and> (ts \<noteq> [] \<and> of_int \<lfloor>exactPercent ts + 1 / 2\<rfloor> = exactPercent ts + 1 / 2 \<longrightarrow>
            winRate ts = Num (of_int (if num_le (Num (exactPercent ts)) (winPercent ts)
                                      then winRate_spec ts else winRate_spec ts - 1)))
       \<and> (ts \<noteq> [] \<and> num_le (Num (of_nat (length (filter (\<lambda>t. result t = WIN) ts))
                                   / of_nat (length ts)))
                             (num_div (len (filter (\<lambda>t. result t = WIN) ts)) (len ts)) \<longrightarrow>
            winRate ts = Num (of_int (winRate_spec ts)))
       \<and> (ts \<noteq> [] \<longrightarrow> winRate ts = Num (of_int (winRate_spec ts))
                       \<or> winRate ts = Num (of_int (winRate_spec ts - 1)))
       \<and> (map result ts = [WIN, WIN, LOSS] \<longrightarrow> winRate ts = Num 67)
       \<and> (map result ts = WIN # replicate 7 LOSS \<longrightarrow> winRate ts = Num 13)"
proof -
  define w where "w = length (filter (\<lambda>t. result t = WIN) ts)"
  define n where "n = length ts"
  define N :: int where "N = 200 * int w + int n"
  define D :: int where "D = 2 * int n"
  define q :: rat where "q = of_nat w / of_nat n"
  have wn: "w \<le> n" by (simp add: w_def n_def)
  have empty: "ts = [] \<longrightarrow> winRate ts = Num 0"
    by (simp add: winRate_def len_def num_gt_def)
  have round: "ts \<noteq> [] \<longrightarrow> winRate ts = Math_round (winPercent ts)"
    by (simp add: winRate_nonempty winPercent_nonempty)
  have ep: "exactPercent ts = 100 * q"
    by (simp add: exactPercent_def w_def [symmetric] n_def [symmetric] q_def)
  have epN: "exactPercent ts + 1 / 2 = of_int N / of_int D" if "ts \<noteq> []"
  proof -
    have "1 \<le> n" using that by (cases ts) (simp_all add: n_def)
    then have "(0::rat) < of_nat n" by simp
    then show ?thesis by (simp add: ep q_def N_def D_def field_simps)
  qed
  have tie_iff: "of_int \<lfloor>exactPercent ts + 1 / 2\<rfloor> = exactPercent ts + 1 / 2 \<longleftrightarrow> D dvd N"
    if ne: "ts \<noteq> []"
  proof
    have n1: "1 \<le> n" using ne by (cases ts) (simp_all add: n_def)
    then have Dpos: "(0::rat) < of_int D" by (simp add: D_def)
    {
      assume "of_int \<lfloor>exactPercent ts + 1 / 2\<rfloor> = exactPercent ts + 1 / 2"
      with epN [OF ne] have "(of_int N / of_int D :: rat) = of_int \<lfloor>exactPercent ts + 1 / 2\<rfloor>"
        by argo
      then have "(of_int N :: rat) = of_int (\<lfloor>exactPercent ts + 1 / 2\<rfloor> * D)"
        using Dpos by (simp add: field_simps)
      then have "N = \<lfloor>exactPercent ts + 1 / 2\<rfloor> * D" by (simp only: of_int_eq_iff)
      then show "D dvd N" by simp
    }
    {
      assume "D dvd N"
      then obtain k where k: "N = D * k" by (auto simp add: dvd_def)
      have "exactPercent ts + 1 / 2 = of_int N / of_int D" by (rule epN [OF ne])
      also have "\<dots> = of_int k" using Dpos by (simp add: k)
      finally show "of_int \<lfloor>exactPercent ts + 1 / 2\<rfloor> = exactPercent ts + 1 / 2" by simp
    }
  qed
  have main: "(\<not> D dvd N \<longrightarrow> winRate ts = Num (of_int (winRate_spec ts)))
      \<and> (D dvd N \<longrightarrow> winRate ts = Num (of_int (if num_le (Num (exactPercent ts)) (winPercent ts)
                                      then winRate_spec ts else winRate_spec ts - 1)))
      \<and> (num_le (Num q) (toDouble q) \<longrightarrow> winRate ts = Num (of_int (winRate_spec ts)))"
    if ne: "ts \<noteq> []"
  proof -
    have n1: "1 \<le> n" using ne by (cases ts) (simp_all add: n_def)
    then have npos: "(0::rat) < of_nat n" by simp
    have D: "0 < D" using n1 by (simp add: D_def)
    have Dpos: "(0::rat) < of_int D" using D by simp
    have spec: "winRate_spec ts = \<lfloor>(of_int N / of_int D :: rat)\<rfloor>"
      using ne by (simp add: winRate_spec_def epN [OF ne])
    have code: "winRate ts = Math_round (num_mul (toDouble q) (Num 100))"
      using ne by (simp add: winRate_nonempty w_def n_def q_def)
    have wp: "winPercent ts = num_mul (toDouble q) (Num 100)"
      using ne by (simp add: winPercent_nonempty w_def n_def q_def)
    show ?thesis
    proof (cases "w = 0")
      case True
      then have "winRate ts = Num 0" by (simp add: code q_def floor_eq_iff)
      moreover have "winRate_spec ts = 0"
        using True npos by (simp add: spec N_def D_def floor_eq_iff)
      moreover have "\<not> D dvd N"
      proof
        assume "D dvd N"
        then have "2 * int n dvd int n" using True by (simp add: D_def N_def)
        then have "2 * int n \<le> int n" using n1 by (intro zdvd_imp_le) simp_all
        with n1 show False by simp
      qed
      ultimately show ?thesis by simp
    next
      case False
      then have w1: "1 \<le> w" by simp
      have "(of_nat n :: rat) < of_nat (2 ^ 32)"
        using assms by (simp only: of_nat_less_iff n_def)
      then have "(of_nat n :: rat) \<le> 2 ^ 32 * of_nat w"
        using w1 by (simp add: order_trans [OF less_imp_le, of _ "2 ^ 32"] mult_le_cancel_left1)
      then have "1 / 2 ^ 32 \<le> q"
        using npos by (simp add: q_def field_simps)
      then have q1: "2 powi (- 32) \<le> q" by simp
      have q2: "q \<le> 1" using wn npos by (simp add: q_def)
      from percent_error [OF q1 _ q2] obtain b
        where b: "num_mul (toDouble q) (Num 100) = Num b" "\<bar>b - 100 * q\<bar> \<le> 2 powi (- 44)"
        by auto
      define d where "d = b - 100 * q"
      have "(of_int D :: rat) < of_int (2 ^ 33)"
        using assms by (simp only: of_int_less_iff) (simp add: D_def n_def)
      then have "(2::rat) powi (- 44) < 1 / of_int D"
        using D by (simp add: field_simps)
      with b(2) have dlt: "\<bar>d\<bar> < 1 / of_int D" by (simp add: d_def)
      have "100 * q + 1 / 2 = of_int N / of_int D"
        using epN [OF ne] by (simp add: ep)
      then have bd: "b + 1 / 2 = of_int N / of_int D + d" unfolding d_def by linarith
      have wr: "winRate ts = Num (of_int \<lfloor>of_int N / of_int D + d\<rfloor>)"
        by (simp add: code b(1) bd)
      have m1: "\<not> D dvd N \<longrightarrow> winRate ts = Num (of_int (winRate_spec ts))"
        using floor_perturbed(1) [OF D dlt, of N] by (simp add: wr spec)
      have le_iff: "num_le (Num (exactPercent ts)) (winPercent ts) \<longleftrightarrow> 0 \<le> d"
        by (simp add: wp b(1) ep d_def)
      have m2: "winRate ts = Num (of_int (if num_le (Num (exactPercent ts)) (winPercent ts)
                                      then winRate_spec ts else winRate_spec ts - 1))"
        if dv: "D dvd N"
      proof -
        obtain k where k: "N = D * k" using dv by (auto simp add: dvd_def)
        have eq: "(of_int N / of_int D :: rat) = of_int k" using Dpos by (simp add: k)
        have sp: "winRate_spec ts = k" by (simp add: spec eq)
        have "(1 :: rat) \<le> of_int D" using D by simp
        then have "1 / of_int D \<le> (1::rat)" using Dpos by (simp add: field_simps)
        with dlt have d1: "- 1 < d" "d < 1" by linarith+
        show ?thesis
        proof (cases "0 \<le> d")
          case True
          with d1 have "of_int k \<le> of_int k + d" "of_int k + d < of_int k + 1" by simp_all
          then have "\<lfloor>of_int k + d\<rfloor> = k" by (rule floor_unique)
          then show ?thesis using True by (simp add: wr eq sp le_iff)
        next
          case False
          with d1 have "of_int (k - 1) \<le> of_int k + d" "of_int k + d < of_int (k - 1) + 1"
            by simp_all
          then have "\<lfloor>of_int k + d\<rfloor> = k - 1" by (rule floor_unique)
          then show ?thesis using False by (simp add: wr eq sp le_iff)
        qed
      qed
      have m3: "winRate ts = Num (of_int (winRate_spec ts))" if le: "num_le (Num q) (toDouble q)"
      proof (cases "D dvd N")
        case False
        with m1 show ?thesis by simp
      next
        case True
        then obtain k where k: "N = D * k" by (auto simp add: dvd_def)
        have eq: "(of_int N / of_int D :: rat) = of_int k" using Dpos by (simp add: k)
        have h: "100 * q = of_int (2 * k - 1) / 2"
          using \<open>100 * q + 1 / 2 = of_int N / of_int D\<close> by (simp add: eq field_simps)
        have q0: "0 < q" using q1 two_powi_pos [of "- 32"] by linarith
        have "(0::rat) < of_int (2 * k - 1)" using h q0 by simp
        then have k1: "0 < 2 * k - 1" by (simp only: of_int_0_less_iff)
        have "(of_int (2 * k - 1) :: rat) \<le> 200" using h q2 by simp
        then have "(of_int (2 * k - 1) :: rat) \<le> of_int 200" by simp
        then have "2 * k - 1 \<le> 200" by (simp only: of_int_le_iff)
        then have k2: "2 * k - 1 \<le> 2 ^ 53" by simp
        have fx: "toDouble (100 * q) = Num (100 * q)"
          using toDouble_half_int [OF k1 k2] by (simp only: h)
        have "2 powi (- 1022) \<le> (2::rat) powi (- 32)" by (intro two_powi_mono) simp
        with q1 have qa: "2 powi (- 1022) \<le> q" by linarith
        have "(1::rat) < 2 powi 1023" using two_powi_strict_mono [of 0 1023] by simp
        with q2 have qb: "q < 2 powi 1023" by linarith
        from toDouble_normal [OF qa qb] obtain a where a: "toDouble q = Num a" by blast
        from le have qa_le: "q \<le> a" by (simp add: a)
        then have "100 * q \<le> a * 100" by simp
        then have "num_le (toDouble (100 * q)) (toDouble (a * 100))" by (rule toDouble_mono)
        moreover have "toDouble (a * 100) = Num b" using b(1) by (simp add: a)
        ultimately have "100 * q \<le> b" by (simp add: fx)
        then have "0 \<le> d" by (simp add: d_def)
        with m2 [OF True] show ?thesis by (simp add: le_iff)
      qed
      from m1 m2 m3 show ?thesis by blast
    qed
  qed
  have c3: "ts \<noteq> [] \<and> of_int \<lfloor>exactPercent ts + 1 / 2\<rfloor> \<noteq> exactPercent ts + 1 / 2 \<longrightarrow>
            winRate ts = Num (of_int (winRate_spec ts))"
    using main tie_iff by blast
  have c4: "ts \<noteq> [] \<and> of_int \<lfloor>exactPercent ts + 1 / 2\<rfloor> = exactPercent ts + 1 / 2 \<longrightarrow>
            winRate ts = Num (of_int (if num_le (Num (exactPercent ts)) (winPercent ts)
                                      then winRate_spec ts else winRate_spec ts - 1))"
    using main tie_iff by blast
  have c5: "ts \<noteq> [] \<and> num_le (Num (of_nat (length (filter (\<lambda>t. result t = WIN) ts))
                                   / of_nat (length ts)))
                             (num_div (len (filter (\<lambda>t. result t = WIN) ts)) (len ts)) \<longrightarrow>
            winRate ts = Num (of_int (winRate_spec ts))"
  proof
    assume h: "ts \<noteq> [] \<and> num_le (Num (of_nat (length (filter (\<lambda>t. result t = WIN) ts))
                                   / of_nat (length ts)))
                             (num_div (len (filter (\<lambda>t. result t = WIN) ts)) (len ts))"
    then have ne: "ts \<noteq> []" by simp
    from h have "num_le (Num q) (toDouble q)"
      by (auto simp add: len_def q_def w_def n_def)
    with main [OF ne] show "winRate ts = Num (of_int (winRate_spec ts))" by blast
  qed
  have c6: "ts \<noteq> [] \<longrightarrow> winRate ts = Num (of_int (winRate_spec ts))
                       \<or> winRate ts = Num (of_int (winRate_spec ts - 1))"
  proof
    assume ne: "ts \<noteq> []"
    show "winRate ts = Num (of_int (winRate_spec ts)) \<or> winRate ts = Num (of_int (winRate_spec ts - 1))"
    proof (cases "D dvd N")
      case True
      with main [OF ne] show ?thesis by (auto split: if_splits)
    next
      case False
      with main [OF ne] show ?thesis by blast
    qed
  qed
  have ex: "map result ts = [WIN, WIN, LOSS] \<longrightarrow> winRate ts = Num 67"
  proof
    assume m: "map result ts = [WIN, WIN, LOSS]"
    then have ne: "ts \<noteq> []" by auto
    have "length (map result ts) = 3" by (simp add: m)
    then have n3: "n = 3" by (simp add: n_def)
    have "length (filter (\<lambda>r. r = WIN) (map result ts)) = 2" by (simp add: m)
    then have w2: "w = 2" by (simp add: w_def filter_map comp_def)
    have "\<not> D dvd N" by (simp add: N_def D_def w2 n3)
    with main [OF ne] have "winRate ts = Num (of_int (winRate_spec ts))" by blast
    moreover have "winRate_spec ts = 67"
      using ne by (simp add: winRate_spec_def exactPercent_def w_def [symmetric] n_def [symmetric]
          w2 n3 floor_eq_iff)
    ultimately show "winRate ts = Num 67" by simp
  qed
  have ex8: "map result ts = WIN # replicate 7 LOSS \<longrightarrow> winRate ts = Num 13"
  proof
    assume m: "map result ts = WIN # replicate 7 LOSS"
    then have ne: "ts \<noteq> []" by auto
    have "length (map result ts) = 8" by (simp add: m)
    then have n8: "n = 8" by (simp add: n_def)
    have "length (filter (\<lambda>r. r = WIN) (map result ts)) = 1" by (simp add: m)
    then have w1: "w = 1" by (simp add: w_def filter_map comp_def)
    have "toDouble (of_int 1 * 2 powi (- 3)) = Num (of_int 1 * 2 powi (- 3))"
      by (rule toDouble_fix) (simp_all add: power_int_minus)
    then have "toDouble q = Num q" by (simp add: q_def w1 n8 power_int_minus)
    then have "num_le (Num q) (toDouble q)" by simp
    with main [OF ne] have "winRate ts = Num (of_int (winRate_spec ts))" by blast
    moreover have "winRate_spec ts = 13"
      using ne by (simp add: winRate_spec_def exactPercent_def w_def [symmetric] n_def [symmetric]
          w1 n8 floor_eq_iff)
    ultimately show "winRate ts = Num 13" by simp
  qed
  from empty round c3 c4 c5 c6 ex ex8 show ?thesis by blast
qed

theorem winRate_rounding_witness:
  "length [sampleTrade WIN 5, sampleTrade WIN 7, sampleTrade LOSS (- 3)] < 2 ^ 32
   \<and> winRate [sampleTrade WIN 5, sampleTrade WIN 7, sampleTrade LOSS (- 3)] = Num 67
   \<and> length (sampleTrade WIN 5 # replicate 7 (sampleTrade LOSS (- 5))) < 2 ^ 32
   \<and> winRate (sampleTrade WIN 5 # replicate 7 (sampleTrade LOSS (- 5))) = Num 13"
proof -
  have l: "length [sampleTrade WIN 5, sampleTrade WIN 7, sampleTrade LOSS (- 3)] < 2 ^ 32"
    by simp
  have "map result [sampleTrade WIN 5, sampleTrade WIN 7, sampleTrade LOSS (- 3)] = [WIN, WIN, LOSS]"
    by (simp add: sampleTrade_def)
  with winRate_rounding [OF l] have a: "winRate [sampleTrade WIN 5, sampleTrade WIN 7, sampleTrade LOSS (- 3)] = Num 67"
    by blast
  have l8: "length (sampleTrade WIN 5 # replicate 7 (sampleTrade LOSS (- 5))) < 2 ^ 32"
    by simp
  have "map result (sampleTrade WIN 5 # replicate 7 (sampleTrade LOSS (- 5))) = WIN # replicate 7 LOSS"
    by (simp add: sampleTrade_def)
  with winRate_rounding [OF l8] have b: "winRate (sampleTrade WIN 5 # replicate 7 (sampleTrade LOSS (- 5))) = Num 13"
    by blast
  from l a l8 b show ?thesis
    by (intro conjI)
qed

text \<open>
  The claim as stated fails at a tie: with 23 wins in 40 trades the exact percentage is 57.5,
  which rounds half up to 58, and the program yields 57.
\<close>

theorem winRate_tie_counterexample:
  "winRate (replicate 23 (sampleTrade WIN 5) @ replicate 17 (sampleTrade LOSS (- 5))) = Num 57
   \<and> winRate_spec (replicate 23 (sampleTrade WIN 5) @ replicate 17 (sampleTrade LOSS (- 5))) = 58"
proof -
  have "len (filter (\<lambda>t. result t = WIN)
      (replicate 23 (sampleTrade WIN 5) @ replicate 17 (sampleTrade LOSS (- 5)))) = Num 23"
    "len (replicate 23 (sampleTrade WIN 5) @ replicate 17 (sampleTrade LOSS (- 5))) = Num 40"
    by (simp_all add: len_def sampleTrade_def)
  then have "winRate (replicate 23 (sampleTrade WIN 5) @ replicate 17 (sampleTrade LOSS (- 5)))
      = Math_round (num_mul (num_div (Num 23) (Num 40)) (Num 100))"
    by (simp only: winRate_def) (simp add: num_gt_def)
  also have "\<dots> = Num 57"
    by (simp only: num_div_23_40 num_mul_23_40_100) (simp add: floor_eq_iff)
  finally have "winRate (replicate 23 (sampleTrade WIN 5) @ replicate 17 (sampleTrade LOSS (- 5))) = Num 57" .
  moreover have "winRate_spec (replicate 23 (sampleTrade WIN 5) @ replicate 17 (sampleTrade LOSS (- 5))) = 58"
    by (simp add: winRate_spec_def exactPercent_def sampleTrade_def)
  ultimately show ?thesis by simp
qed

section \<open>Average loss\<close>

lemma num_add_neg: "num_add (num_neg a) (num_neg b) = num_neg (num_add a b)"
  by (cases a; cases b) (simp_all add: toDouble_minus [symmetric])

lemma num_neg_neg [simp]: "num_neg (num_neg a) = a"
  by (cases a) simp_all

lemma num_div_neg_pos: "0 < n \<Longrightarrow> num_div (num_neg a) (Num n) = num_neg (num_div a (Num n))"
  by (cases a) (simp_all add: toDouble_minus [symmetric] signedInfinity_def)

lemma Math_abs_num_neg [simp]: "Math_abs (num_neg a) = Math_abs a"
  by (cases a) simp_all

lemma Math_abs_nonneg: "num_le (Num 0) a \<Longrightarrow> Math_abs a = a"
  by (cases a) simp_all

lemma Math_abs_nonpos: "num_le a (Num 0) \<Longrightarrow> Math_abs a = num_neg a"
  by (cases a) simp_all

lemma num_add_nonneg: "num_le (Num 0) a \<Longrightarrow> num_le (Num 0) b \<Longrightarrow> num_le (Num 0) (num_add a b)"
proof (cases a; cases b)
  fix x y assume "a = Num x" "b = Num y" "num_le (Num 0) a" "num_le (Num 0) b"
  then have "0 \<le> x + y" "num_add a b = toDouble (x + y)" by simp_all
  then show "num_le (Num 0) (num_add a b)"
    using toDouble_nonneg [of "x + y"] by auto
qed simp_all

lemma num_div_nonneg: "num_le (Num 0) a \<Longrightarrow> 0 < n \<Longrightarrow> num_le (Num 0) (num_div a (Num n))"
proof (cases a)
  fix x assume "a = Num x" "num_le (Num 0) a" "0 < n"
  then have "0 \<le> x / n" "num_div a (Num n) = toDouble (x / n)" by simp_all
  then show "num_le (Num 0) (num_div a (Num n))"
    using toDouble_nonneg [of "x / n"] by auto
qed (simp_all add: signedInfinity_def)

lemma foldl_num_add_nonneg:
  "num_le (Num 0) a \<Longrightarrow> \<forall>x \<in> set xs. num_le (Num 0) x \<Longrightarrow> num_le (Num 0) (foldl num_add a xs)"
  by (induction xs arbitrary: a) (simp_all add: num_add_nonneg)

lemma foldl_num_add_neg: "foldl num_add (num_neg a) (map num_neg xs) = num_neg (foldl num_add a xs)"
  by (induction xs arbitrary: a) (simp_all add: num_add_neg)

lemma sumPnl_foldl: "sumPnl ts = foldl num_add (Num 0) (map pnl ts)"
  by (simp add: sumPnl_def foldl_map)

lemma len_pos: "xs \<noteq> [] \<Longrightarrow> num_gt (len xs) (Num 0)"
  by (simp add: len_def num_gt_def)

lemma len_empty: "\<not> num_gt (len []) (Num 0)"
  by (simp add: len_def num_gt_def)

lemma avgLoss_unfold:
  "avgLoss ts =
     (if filter (\<lambda>t. result t = LOSS) ts = [] then Num 0
      else Math_abs (mean (map pnl (filter (\<lambda>t. result t = LOSS) ts))))"
  by (simp add: avgLoss_def Let_def mean_def sumPnl_foldl len_def num_gt_def)

lemma mean_abs_nonneg:
  assumes "xs \<noteq> []" and "\<forall>x \<in> set xs. num_le (Num 0) x"
  shows "Math_abs (mean xs) = mean (map Math_abs xs)"
proof -
  have m: "map Math_abs xs = xs"
    using assms(2) by (simp add: map_idI Math_abs_nonneg)
  have "num_le (Num 0) (foldl num_add (Num 0) xs)"
    using assms(2) by (intro foldl_num_add_nonneg) simp_all
  then have "num_le (Num 0) (mean xs)"
    using assms(1) by (simp add: mean_def len_def num_div_nonneg)
  then show ?thesis
    by (simp add: m Math_abs_nonneg)
qed

lemma mean_neg:
  assumes "xs \<noteq> []"
  shows "mean (map num_neg xs) = num_neg (mean xs)"
proof -
  have "foldl num_add (Num 0) (map num_neg xs) = num_neg (foldl num_add (Num 0) xs)"
    using foldl_num_add_neg [of "Num 0" xs] by simp
  then show ?thesis
    using assms by (simp add: mean_def len_def num_div_neg_pos)
qed

lemma mean_abs_nonpos:
  assumes "xs \<noteq> []" and "\<forall>x \<in> set xs. num_le x (Num 0)"
  shows "Math_abs (mean xs) = mean (map Math_abs xs)"
proof -
  have m: "map Math_abs xs = map num_neg xs"
    using assms(2) by (simp add: Math_abs_nonpos)
  have nn: "\<forall>x \<in> set (map num_neg xs). num_le (Num 0) x"
    using assms(2) num_le_neg [of "Num 0"] by simp
  have "Math_abs (mean xs) = Math_abs (num_neg (mean xs))" by simp
  also have "\<dots> = Math_abs (mean (map num_neg xs))"
    by (simp only: mean_neg [OF assms(1)])
  also have "\<dots> = mean (map Math_abs (map num_neg xs))"
    using assms(1) nn by (intro mean_abs_nonneg) simp_all
  also have "\<dots> = mean (map Math_abs xs)"
    by (simp add: comp_def)
  finally show ?thesis .
qed

text \<open>
  Claim C1, as amended. The average loss is the absolute value of the mean \<open>pnl\<close> of the
  LOSS trades. When the \<open>pnl\<close> values of the LOSS trades all have the same sign (all at most
  0, or all at least 0) this is the mean of their absolute values; it is 0 when there is no
  LOSS trade; over two LOSS trades with \<open>pnl\<close> -20 and -10 it is 15.
\<close>

theorem avgLoss_same_sign:
  "avgLoss ts
     = (if filter (\<lambda>t. result t = LOSS) ts = [] then Num 0
        else Math_abs (mean (map pnl (filter (\<lambda>t. result t = LOSS) ts))))
   \<and> ((\<forall>t \<in> set ts. result t = LOSS \<longrightarrow> num_le (pnl t) (Num 0))
        \<or> (\<forall>t \<in> set ts. result t = LOSS \<longrightarrow> num_le (Num 0) (pnl t))
      \<longrightarrow> avgLoss ts = avgLoss_spec ts)
   \<and> (filter (\<lambda>t. result t = LOSS) ts = [] \<longrightarrow> avgLoss ts = Num 0)
   \<and> (map (\<lambda>t. (result t, pnl t)) ts = [(LOSS, Num (- 20)), (LOSS, Num (- 10))] \<longrightarrow>
        avgLoss ts = Num 15)"
proof -
  define ls where "ls = map pnl (filter (\<lambda>t. result t = LOSS) ts)"
  have spec: "avgLoss_spec ts = (if ls = [] then Num 0 else mean (map Math_abs ls))"
    by (simp add: avgLoss_spec_def Let_def ls_def comp_def)
  have code: "avgLoss ts = (if ls = [] then Num 0 else Math_abs (mean ls))"
    by (simp add: avgLoss_unfold ls_def)
  have eq: "avgLoss ts = avgLoss_spec ts"
    if "(\<forall>t \<in> set ts. result t = LOSS \<longrightarrow> num_le (pnl t) (Num 0))
        \<or> (\<forall>t \<in> set ts. result t = LOSS \<longrightarrow> num_le (Num 0) (pnl t))"
  proof (cases "ls = []")
    case True
    then show ?thesis by (simp add: spec code)
  next
    case False
    from that have "(\<forall>x \<in> set ls. num_le x (Num 0)) \<or> (\<forall>x \<in> set ls. num_le (Num 0) x)"
      by (auto simp add: ls_def)
    with False have "Math_abs (mean ls) = mean (map Math_abs ls)"
      using mean_abs_nonpos [of ls] mean_abs_nonneg [of ls] by blast
    with False show ?thesis by (simp add: spec code)
  qed
  have empty: "filter (\<lambda>t. result t = LOSS) ts = [] \<longrightarrow> avgLoss ts = Num 0"
    by (simp add: code ls_def)
  have ex: "map (\<lambda>t. (result t, pnl t)) ts = [(LOSS, Num (- 20)), (LOSS, Num (- 10))] \<longrightarrow>
            avgLoss ts = Num 15"
  proof
    assume h: "map (\<lambda>t. (result t, pnl t)) ts = [(LOSS, Num (- 20)), (LOSS, Num (- 10))]"
    then obtain a b where ts: "ts = [a, b]" by auto
    with h have "ls = [Num (- 20), Num (- 10)]" by (simp add: ls_def)
    then show "avgLoss ts = Num 15"
      by (simp add: code mean_def len_def)
  qed
  from avgLoss_unfold [of ts] eq empty ex show ?thesis by blast
qed

theorem avgLoss_same_sign_witness:
  "avgLoss [sampleTrade LOSS (- 20), sampleTrade WIN 30, sampleTrade LOSS (- 10)] = Num 15
   \<and> avgLoss_spec [sampleTrade LOSS (- 20), sampleTrade WIN 30, sampleTrade LOSS (- 10)] = Num 15"
proof -
  have "\<forall>t \<in> set [sampleTrade LOSS (- 20), sampleTrade WIN 30, sampleTrade LOSS (- 10)].
      result t = LOSS \<longrightarrow> num_le (pnl t) (Num 0)"
    by (simp add: sampleTrade_def)
  then have "avgLoss [sampleTrade LOSS (- 20), sampleTrade WIN 30, sampleTrade LOSS (- 10)]
      = avgLoss_spec [sampleTrade LOSS (- 20), sampleTrade WIN 30, sampleTrade LOSS (- 10)]"
    using avgLoss_same_sign [of "[sampleTrade LOSS (- 20), sampleTrade WIN 30, sampleTrade LOSS (- 10)]"]
    by blast
  moreover have "avgLoss_spec [sampleTrade LOSS (- 20), sampleTrade WIN 30, sampleTrade LOSS (- 10)] = Num 15"
    by (simp add: avgLoss_spec_def mean_def len_def sampleTrade_def)
  ultimately show ?thesis by simp
qed

text \<open>
  The claim as stated fails when LOSS trades carry \<open>pnl\<close> of both signs, which the data
  model permits: for 10 and -20 the mean of the absolute values is 15 and the program yields 5.
\<close>

theorem avgLoss_mixed_counterexample:
  "avgLoss [sampleTrade LOSS 10, sampleTrade LOSS (- 20)] = Num 5
   \<and> avgLoss_spec [sampleTrade LOSS 10, sampleTrade LOSS (- 20)] = Num 15"
  by (simp add: avgLoss_unfold avgLoss_spec_def mean_def len_def sampleTrade_def)

section \<open>Drill streak\<close>

lemma streak_loop_takeWhile:
  "- 1 \<le> i \<Longrightarrow> i < int (length ds) \<Longrightarrow>
   streak_loop ds i n
     = n + length (takeWhile (\<lambda>d. num_ge (intensity d) (Num 5)) (rev (take (nat (i + 1)) ds)))"
proof (induction ds i n rule: streak_loop.induct)
  case (1 ds i n)
  show ?case
  proof (cases "0 \<le> i")
    case False
    with "1.prems" have "nat (i + 1) = 0" by simp
    with False show ?thesis by (simp add: streak_loop.simps [of ds i n])
  next
    case True
    with "1.prems" have lt: "nat i < length ds" by simp
    from True have nat_eq: "nat (i + 1) = Suc (nat i)" "nat (i - 1 + 1) = nat i" by simp_all
    have tk: "rev (take (nat (i + 1)) ds) = ds ! nat i # rev (take (nat i) ds)"
      by (simp add: nat_eq take_Suc_conv_app_nth [OF lt])
    show ?thesis
    proof (cases "num_ge (intensity (ds ! nat i)) (Num 5)")
      case q: True
      have "streak_loop ds i n = streak_loop ds (i - 1) (n + 1)"
        using True q by (simp add: streak_loop.simps [of ds i n])
      also have "\<dots> = n + 1 + length (takeWhile (\<lambda>d. num_ge (intensity d) (Num 5)) (rev (take (nat i) ds)))"
        using "1.IH" [OF True q] "1.prems" True by (simp add: nat_eq)
      finally show ?thesis using q by (simp add: tk)
    next
      case q: False
      then show ?thesis using True by (simp add: tk streak_loop.simps [of ds i n])
    qed
  qed
qed

lemma streak_takeWhile:
  "streak ds = length (takeWhile (\<lambda>d. num_ge (intensity d) (Num 5)) (rev ds))"
  using streak_loop_takeWhile [of "int (length ds) - 1" ds 0] by (simp add: streak_def)

text \<open>
  Claim C4. The streak is the length of the longest suffix of the drill list all of whose
  entries have intensity at least 5: it counts the entries from the most recent one backward
  and stops at the first entry below 5. Over the intensities 8, 3, 9, 9 (oldest first) it is 2.
\<close>

theorem streak_suffix:
  "streak ds = length (takeWhile (\<lambda>d. num_ge (intensity d) (Num 5)) (rev ds))
   \<and> streak ds \<le> length ds
   \<and> (\<forall>j < streak ds. num_ge (intensity (ds ! (length ds - 1 - j))) (Num 5))
   \<and> (streak ds < length ds \<longrightarrow> \<not> num_ge (intensity (ds ! (length ds - 1 - streak ds))) (Num 5))
   \<and> (map intensity ds = [Num 8, Num 3, Num 9, Num 9] \<longrightarrow> streak ds = 2)"
proof -
  let ?P = "\<lambda>d. num_ge (intensity d) (Num 5)"
  let ?tw = "takeWhile ?P (rev ds)"
  have st: "streak ds = length ?tw"
    by (rule streak_takeWhile)
  have st_le: "streak ds \<le> length ds"
    using length_takeWhile_le [of ?P "rev ds"] by (simp add: st)
  have a: "\<forall>j < streak ds. ?P (ds ! (length ds - 1 - j))"
  proof (intro allI impI)
    fix j assume j: "j < streak ds"
    then have jl: "j < length ?tw" by (simp add: st)
    then have "?tw ! j \<in> set ?tw" by (rule nth_mem)
    then have "?P (?tw ! j)" by (rule set_takeWhileD [THEN conjunct2])
    moreover have "?tw ! j = rev ds ! j" using jl by (rule takeWhile_nth)
    moreover have "rev ds ! j = ds ! (length ds - 1 - j)"
      using j st_le by (simp add: rev_nth)
    ultimately show "?P (ds ! (length ds - 1 - j))" by simp
  qed
  have b: "streak ds < length ds \<longrightarrow> \<not> ?P (ds ! (length ds - 1 - streak ds))"
  proof
    assume lt: "streak ds < length ds"
    then have "length ?tw < length (rev ds)" by (simp add: st)
    then have "\<not> ?P (rev ds ! length ?tw)"
      by (rule nth_length_takeWhile)
    moreover have "rev ds ! streak ds = ds ! (length ds - 1 - streak ds)"
      using lt by (simp add: rev_nth)
    ultimately show "\<not> ?P (ds ! (length ds - 1 - streak ds))" by (simp add: st)
  qed
  have c: "map intensity ds = [Num 8, Num 3, Num 9, Num 9] \<longrightarrow> streak ds = 2"
  proof
    assume m: "map intensity ds = [Num 8, Num 3, Num 9, Num 9]"
    have "length ?tw = length (takeWhile (\<lambda>x. num_ge x (Num 5)) (map intensity (rev ds)))"
      by (simp add: takeWhile_map comp_def)
    also have "\<dots> = 2"
      by (simp add: rev_map [symmetric] m num_ge_def)
    finally show "streak ds = 2" by (simp add: st)
  qed
  from st st_le a b c show ?thesis by blast
qed

theorem streak_suffix_witness:
  "map intensity (map sampleDrill [8, 3, 9, 9]) = [Num 8, Num 3, Num 9, Num 9]
   \<and> streak (map sampleDrill [8, 3, 9, 9]) = 2"
  using streak_suffix [of "map sampleDrill [8, 3, 9, 9]"] by (simp add: sampleDrill_def)

section \<open>Progress percent\<close>

lemma num_sub_Num: "num_sub (Num a) (Num b) = toDouble (a - b)"
  by (simp add: num_sub_def)

lemma clamp_Num: "Math_min (Num 100) (Math_max (Num 0) (Num b)) = Num (min 100 (max 0 b))"
  by (simp add: Math_min_def Math_max_def max_def min_def)

lemma clamp_NegInfinity: "Math_min (Num 100) (Math_max (Num 0) NegInfinity) = Num 0"
  by (simp add: Math_min_def Math_max_def)

lemma clamp_Infinity: "Math_min (Num 100) (Math_max (Num 0) Infinity) = Num 100"
  by (simp add: Math_min_def Math_max_def)

text \<open>A numerator that is not positive: the scaled quotient is not positive either.\<close>

lemma percent_nonpos:
  assumes "N = NegInfinity \<or> (\<exists>n. N = Num n \<and> n \<le> 0)" and "0 < d"
  shows "Math_min (Num 100) (Math_max (Num 0) (num_mul (num_div N (Num d)) (Num 100))) = Num 0"
proof -
  have R: "num_div N (Num d) = NegInfinity \<or> (\<exists>r. num_div N (Num d) = Num r \<and> r \<le> 0)"
  proof -
    from assms(1) consider "N = NegInfinity" | n where "N = Num n" "n \<le> 0" by blast
    then show ?thesis
    proof cases
      case 1
      with assms(2) show ?thesis by (simp add: signedInfinity_def)
    next
      case 2
      with assms(2) have "n / d \<le> 0" by (simp add: divide_nonpos_pos)
      then show ?thesis
        using toDouble_nonpos [of "n / d"] assms(2) 2 by simp
    qed
  qed
  have P: "num_mul (num_div N (Num d)) (Num 100) = NegInfinity
      \<or> (\<exists>p. num_mul (num_div N (Num d)) (Num 100) = Num p \<and> p \<le> 0)"
  proof -
    from R consider "num_div N (Num d) = NegInfinity" | r where "num_div N (Num d) = Num r" "r \<le> 0"
      by blast
    then show ?thesis
    proof cases
      case 1
      then show ?thesis by (simp add: signedInfinity_def)
    next
      case 2
      then have "r * 100 \<le> 0" by simp
      then show ?thesis
        using toDouble_nonpos [of "r * 100"] 2 by simp
    qed
  qed
  then show ?thesis
    by (auto simp add: clamp_Num clamp_NegInfinity)
qed

lemma num_le_Num_cases:
  assumes "num_le (Num a) X"
  shows "X = Infinity \<or> (\<exists>x. X = Num x \<and> a \<le> x)"
  using assms by (cases X) simp_all

text \<open>A numerator at least the denominator: the scaled quotient is at least 100.\<close>

lemma percent_full:
  assumes "num_le (Num d) N" and "0 < d"
  shows "Math_min (Num 100) (Math_max (Num 0) (num_mul (num_div N (Num d)) (Num 100))) = Num 100"
proof -
  have R: "num_le (Num 1) (num_div N (Num d))"
  proof -
    from num_le_Num_cases [OF assms(1)] consider "N = Infinity" | n where "N = Num n" "d \<le> n" by blast
    then show ?thesis
    proof cases
      case 1
      with assms(2) show ?thesis by (simp add: signedInfinity_def)
    next
      case 2
      with assms(2) have "1 \<le> n / d" by simp
      then have "num_le (toDouble 1) (toDouble (n / d))" by (rule toDouble_mono)
      then show ?thesis using 2 assms(2) by simp
    qed
  qed
  have P: "num_le (Num 100) (num_mul (num_div N (Num d)) (Num 100))"
  proof -
    from num_le_Num_cases [OF R] consider "num_div N (Num d) = Infinity"
      | r where "num_div N (Num d) = Num r" "1 \<le> r" by blast
    then show ?thesis
    proof cases
      case 1
      then show ?thesis by (simp add: signedInfinity_def)
    next
      case 2
      then have "100 \<le> r * 100" by simp
      then have "num_le (toDouble 100) (toDouble (r * 100))" by (rule toDouble_mono)
      then show ?thesis using 2 by simp
    qed
  qed
  from num_le_Num_cases [OF P] show ?thesis
    by (auto simp add: clamp_Num clamp_Infinity)
qed

text \<open>A numerator between 0 and the denominator: the scaled quotient is between 0 and 100.\<close>

lemma percent_between:
  assumes "0 \<le> n" and "n \<le> d" and "0 < d"
  shows "\<exists>p. num_mul (num_div (Num n) (Num d)) (Num 100) = Num p \<and> 0 \<le> p \<and> p \<le> 100"
proof -
  have "0 \<le> n / d" "n / d \<le> 1" using assms by simp_all
  then have "num_le (toDouble 0) (toDouble (n / d))" "num_le (toDouble (n / d)) (toDouble 1)"
    by (simp_all only: toDouble_mono)
  then obtain r where r: "toDouble (n / d) = Num r" "0 \<le> r" "r \<le> 1"
    by (cases "toDouble (n / d)") simp_all
  then have "0 \<le> r * 100" "r * 100 \<le> 100" by simp_all
  then have "num_le (toDouble 0) (toDouble (r * 100))" "num_le (toDouble (r * 100)) (toDouble 100)"
    by (simp_all only: toDouble_mono)
  then obtain p where p: "toDouble (r * 100) = Num p" "0 \<le> p" "p \<le> 100"
    by (cases "toDouble (r * 100)") simp_all
  then show ?thesis
    using assms(3) r(1) by simp
qed

text \<open>
  Rounding a positive rational: an overflow, a relative error of at most \<open>2^-53\<close>, or
  an absolute error of at most \<open>2^-1075\<close> below the normal range.
\<close>

lemma toDouble_pos_cases:
  assumes "0 < x"
  shows "(toDouble x = Infinity \<and> 2 powi 1023 \<le> x)
       \<or> (\<exists>y. toDouble x = Num y \<and> 0 \<le> y
             \<and> (\<bar>y - x\<bar> \<le> x * 2 powi (- 53)
                 \<or> x < 2 powi (- 1022) \<and> \<bar>y - x\<bar> \<le> 2 powi (- 1075)))"
proof (cases "2 powi (- 1022) \<le> x")
  case True
  then have lo: "- 1022 \<le> ilog2 x" by (rule ilog2_ge)
  have err: "\<bar>roundMagnitude x - x\<bar> \<le> x * 2 powi (- 53)"
    using assms lo by (rule rm_relative_error)
  have nn: "0 \<le> roundMagnitude x" using assms by (intro rm_nonneg) simp
  show ?thesis
  proof (cases "2 powi 1024 \<le> roundMagnitude x")
    case True
    have "(2::rat) powi (- 53) \<le> 1"
      using two_powi_mono [of "- 53" 0] by simp
    then have "x * 2 powi (- 53) \<le> x * 1" using assms by (intro mult_left_mono) simp_all
    with err have "roundMagnitude x \<le> 2 * x" by linarith
    with True have "2 powi 1024 \<le> 2 * x" by linarith
    moreover have "(2::rat) powi 1024 = 2 * 2 powi 1023"
      using two_powi_add [of 1 1023] by simp
    ultimately have "2 powi 1023 \<le> x" by linarith
    with True show ?thesis by (simp add: toDouble_pos [OF assms])
  next
    case False
    then have "toDouble x = Num (roundMagnitude x)" by (simp add: toDouble_pos [OF assms])
    with nn err show ?thesis by blast
  qed
next
  case False
  then have small: "x < 2 powi (- 1022)" by simp
  then have "ilog2 x < - 1022" using assms by (intro ilog2_less)
  then have u: "ulp x = 2 powi (- 1074)" by (simp add: ulp_def max_def)
  have "(2::rat) powi (- 1074) / 2 = 2 powi (- 1074) / 2 powi 1" by simp
  also have "\<dots> = 2 powi (- 1075)" by (simp only: two_powi_diff) simp
  finally have half: "(2::rat) powi (- 1074) / 2 = 2 powi (- 1075)" .
  have err: "\<bar>roundMagnitude x - x\<bar> \<le> 2 powi (- 1075)"
    using rm_error [of x] by (simp only: u half)
  have nn: "0 \<le> roundMagnitude x" using assms by (intro rm_nonneg) simp
  have "(2::rat) powi (- 1075) \<le> 2 powi (- 1022)" by (intro two_powi_mono) simp
  moreover have "(2::rat) powi (- 1022) + 2 powi (- 1022) = 2 powi (- 1021)"
    using two_powi_add [of 1 "- 1022"] by simp
  moreover have "(2::rat) powi (- 1021) < 2 powi 1024" by (intro two_powi_strict_mono) simp
  ultimately have "roundMagnitude x < 2 powi 1024" using err small by linarith
  then have "toDouble x = Num (roundMagnitude x)" by (simp add: toDouble_pos [OF assms])
  with nn err small show ?thesis by blast
qed

text \<open>
  A difference of two doubles is a multiple of \<open>2^-1074\<close>, so below the normal range its
  rounding is exact.
\<close>

lemma double_difference:
  assumes "isDouble s" and "isDouble c" and "s < c"
  shows "toDouble (c - s) = Infinity
       \<or> (\<exists>n. toDouble (c - s) = Num n \<and> \<bar>n - (c - s)\<bar> \<le> (c - s) * 2 powi (- 53))"
proof -
  define g :: rat where "g = 2 powi (- 1074)"
  have g: "0 < g" by (simp add: g_def)
  from isDouble_grid [OF assms(1)] isDouble_grid [OF assms(2)]
  obtain i j where s: "s = of_int i * g" and c: "c = of_int j * g"
    unfolding g_def by blast
  define m where "m = j - i"
  have x: "c - s = of_int m * g" by (simp add: s c m_def algebra_simps)
  have pos: "0 < c - s" using assms(3) by simp
  then have "0 < of_int m * g" by (simp only: x)
  then have "(0::rat) < of_int m" using g by (simp add: zero_less_mult_iff)
  then have m0: "0 < m" by (simp only: of_int_0_less_iff)
  from toDouble_pos_cases [OF pos] consider "toDouble (c - s) = Infinity"
    | y where "toDouble (c - s) = Num y" "\<bar>y - (c - s)\<bar> \<le> (c - s) * 2 powi (- 53)"
    | "c - s < 2 powi (- 1022)"
    by blast
  then show ?thesis
  proof cases
    case 1
    then show ?thesis by simp
  next
    case 2
    then show ?thesis by blast
  next
    case 3
    have p: "(2::rat) powi (- 1022) = 2 powi 52 * g"
      unfolding g_def using two_powi_add [of 52 "- 1074"] by simp
    from 3 have "of_int m * g < 2 powi 52 * g" by (simp only: x p)
    then have "(of_int m :: rat) < 2 powi 52" using g by (simp only: mult_less_cancel_right_pos)
    then have "(of_int m :: rat) < of_int (2 ^ 52)" by simp
    then have "m < 2 ^ 52" by (simp only: of_int_less_iff)
    then have m1: "m \<le> 2 ^ 53" by simp
    have "(2::rat) powi (- 1022) < 2 powi 1024" by (intro two_powi_strict_mono) simp
    with 3 have "c - s < (2::rat) powi 1024" by linarith
    then have "of_int m * 2 powi (- 1074) < (2::rat) powi 1024"
      by (simp only: x g_def)
    from toDouble_fix [OF m0 m1 _ this] have "toDouble (c - s) = Num (c - s)"
      by (simp only: x g_def)
    moreover have "\<bar>(c - s) - (c - s)\<bar> \<le> (c - s) * 2 powi (- 53)"
      using pos by simp
    ultimately show ?thesis by blast
  qed
qed

text \<open>The constants of the error analysis.\<close>

lemma unit_roundoff:
  fixes u :: rat
  assumes "u = 2 powi (- 53)"
  shows "0 < u" and "u \<le> 1 / 2" and "(1 + u) / (1 - u) * (1 + u) * (1 + u) \<le> 1 + 5 * u"
    and "1 - 5 * u \<le> (1 - u) / (1 + u) * (1 - u) * (1 - u)" and "500 * u \<le> 2 powi (- 44)"
    and "(1 + u) / (1 - u) \<le> 2" and "1 / 2 \<le> (1 - u) / (1 + u)"
proof -
  have u: "u = 1 / 2 ^ 53" by (simp add: assms)
  show "0 < u" "u \<le> 1 / 2" by (simp_all add: u)
  show "(1 + u) / (1 - u) * (1 + u) * (1 + u) \<le> 1 + 5 * u" by (simp add: u)
  show "1 - 5 * u \<le> (1 - u) / (1 + u) * (1 - u) * (1 - u)" by (simp add: u)
  show "500 * u \<le> 2 powi (- 44)" by (simp add: u)
  show "(1 + u) / (1 - u) \<le> 2" "1 / 2 \<le> (1 - u) / (1 + u)" by (simp_all add: u)
qed

lemma ratio_bounds:
  fixes X Y u n d :: rat
  assumes "0 < X" and "0 < Y" and "0 < u" and "u \<le> 1 / 2"
    and "\<bar>n - X\<bar> \<le> X * u" and "\<bar>d - Y\<bar> \<le> Y * u"
  shows "0 < n" and "0 < d"
    and "n / d \<le> X / Y * ((1 + u) / (1 - u))"
    and "X / Y * ((1 - u) / (1 + u)) \<le> n / d"
proof -
  have u1: "0 < 1 - u" "0 < 1 + u" using assms(3,4) by simp_all
  have n: "X * (1 - u) \<le> n" "n \<le> X * (1 + u)"
    using assms(5) by (simp_all only: abs_le_iff right_diff_distrib distrib_left mult_1_right) linarith+
  have d: "Y * (1 - u) \<le> d" "d \<le> Y * (1 + u)"
    using assms(6) by (simp_all only: abs_le_iff right_diff_distrib distrib_left mult_1_right) linarith+
  have Xl: "0 < X * (1 - u)" and Yl: "0 < Y * (1 - u)"
    using assms(1,2) u1 by (simp_all only: mult_pos_pos)
  show n0: "0 < n" using n(1) Xl by linarith
  show d0: "0 < d" using d(1) Yl by linarith
  have Xu: "0 \<le> X * (1 + u)" using n0 n(2) by linarith
  have "n / d \<le> (X * (1 + u)) / (Y * (1 - u))"
    using Xu n(2) Yl d(1) by (rule frac_le)
  also have "\<dots> = X / Y * ((1 + u) / (1 - u))" by (simp only: times_divide_times_eq)
  finally show "n / d \<le> X / Y * ((1 + u) / (1 - u))" .
  have n0': "0 \<le> n" using n0 by simp
  have "(X * (1 - u)) / (Y * (1 + u)) \<le> n / d"
    using n0' n(1) d0 d(2) by (rule frac_le)
  moreover have "(X * (1 - u)) / (Y * (1 + u)) = X / Y * ((1 - u) / (1 + u))"
    by (simp only: times_divide_times_eq)
  ultimately show "X / Y * ((1 - u) / (1 + u)) \<le> n / d" by (simp only:)
qed

lemma relative_bounds:
  fixes r u q :: rat
  assumes "\<bar>q - r\<bar> \<le> r * u"
  shows "r * (1 - u) \<le> q" and "q \<le> r * (1 + u)"
  using assms by (simp_all only: abs_le_iff right_diff_distrib distrib_left mult_1_right) linarith+

text \<open>Two small nonnegative numbers: their clamped values are close.\<close>

lemma clamp_small:
  fixes p E e :: rat
  assumes "0 \<le> p" and "p \<le> e" and "0 \<le> E" and "E \<le> e" and "e \<le> 100"
  shows "\<bar>min 100 (max 0 p) - max 0 (min 100 E)\<bar> \<le> e"
  using assms by (simp add: min_def max_def abs_if)

text \<open>A relative perturbation of a positive number by at most \<open>5u\<close>, clamped.\<close>

lemma clamp_relative:
  fixes p E u :: rat
  assumes "0 < E" and "E * (1 - 5 * u) \<le> p" and "p \<le> E * (1 + 5 * u)" and "0 < u" and "u \<le> 1 / 10"
  shows "\<bar>min 100 (max 0 p) - max 0 (min 100 E)\<bar> \<le> 500 * u"
proof (cases "E \<le> 100")
  case True
  have "E * (5 * u) \<le> 100 * (5 * u)" using True assms(4) by (intro mult_right_mono) simp_all
  then have e: "E * (5 * u) \<le> 500 * u" by simp
  have lo: "E - E * (5 * u) \<le> p" using assms(2) by (simp only: right_diff_distrib mult_1_right)
  have hi: "p \<le> E + E * (5 * u)" using assms(3) by (simp only: distrib_left mult_1_right)
  have "0 \<le> E * (5 * u)" using assms(1,4) by simp
  with lo hi e True assms(1) show ?thesis
    by (simp add: min_def max_def abs_if)
next
  case False
  then have E: "100 < E" by simp
  have u5: "0 \<le> 1 - 5 * u" using assms(5) by simp
  have "100 * (1 - 5 * u) \<le> E * (1 - 5 * u)" using E u5 by (intro mult_right_mono) simp_all
  with assms(2) have "100 - 500 * u \<le> p" by simp
  moreover have "0 \<le> 500 * u" using assms(4) by simp
  ultimately show ?thesis using E
    by (simp add: min_def max_def abs_if)
qed

text \<open>
  The quotient of two rounded positive numbers, scaled by 100 and clamped: within \<open>2^-44\<close>
  of the exact clamped percentage, whatever overflows or underflows on the way.
\<close>

lemma tiny_constants:
  "400 * 2 powi (- 1022) \<le> (2::rat) powi (- 44)"
  "(2::rat) powi (- 1075) \<le> 2 powi (- 1022)"
  "400 \<le> (2::rat) powi 1023"
  "(2::rat) powi (- 44) \<le> 100"
proof -
  have a: "(400::rat) \<le> 2 powi 9" by simp
  have "(2::rat) powi 9 * 2 powi (- 1022) = 2 powi (- 1013)"
    using two_powi_add [of 9 "- 1022"] by simp
  moreover have "(2::rat) powi (- 1013) \<le> 2 powi (- 44)" by (intro two_powi_mono) simp
  moreover have "400 * 2 powi (- 1022) \<le> (2::rat) powi 9 * 2 powi (- 1022)"
    using a by (intro mult_right_mono) simp_all
  ultimately show "400 * 2 powi (- 1022) \<le> (2::rat) powi (- 44)" by linarith
  show "(2::rat) powi (- 1075) \<le> 2 powi (- 1022)" by (intro two_powi_mono) simp
  have "(2::rat) powi 9 \<le> 2 powi 1023" by (intro two_powi_mono) simp
  with a show "400 \<le> (2::rat) powi 1023" by linarith
  have "(2::rat) powi (- 44) \<le> 2 powi 0" by (intro two_powi_mono) simp
  then show "(2::rat) powi (- 44) \<le> 100" by simp
qed

lemma percent_relative:
  assumes X: "0 < X" and Y: "0 < Y"
    and N: "N = Infinity \<and> Y < X \<or> (\<exists>n. N = Num n \<and> \<bar>n - X\<bar> \<le> X * 2 powi (- 53))"
    and d: "\<bar>d - Y\<bar> \<le> Y * 2 powi (- 53)"
  shows "\<exists>p. Math_min (Num 100) (Math_max (Num 0) (num_mul (num_div N (Num d)) (Num 100))) = Num p
            \<and> \<bar>p - max 0 (min 100 (100 * X / Y))\<bar> \<le> 2 powi (- 44)"
proof -
  define u :: rat where "u = 2 powi (- 53)"
  note U = unit_roundoff [OF u_def]
  define m1 :: rat where "m1 = 2 powi (- 1022)"
  define m2 :: rat where "m2 = 2 powi (- 1075)"
  define big :: rat where "big = 2 powi 1023"
  define e44 :: rat where "e44 = 2 powi (- 44)"
  have C: "400 * m1 \<le> e44" "m2 \<le> m1" "400 \<le> big" "e44 \<le> 100" "0 < m1" "0 < m2"
    unfolding m1_def m2_def big_def e44_def by (simp_all only: tiny_constants two_powi_pos)
  define \<rho> where "\<rho> = X / Y"
  define E where "E = 100 * \<rho>"
  have \<rho>: "0 < \<rho>" using X Y by (simp add: \<rho>_def)
  have E0: "0 < E" using \<rho> by (simp add: E_def)
  have goalE: "100 * X / Y = E" by (simp add: E_def \<rho>_def)
  have u10: "u \<le> 1 / 10" using U(2) unit_roundoff(5) [OF u_def] U(1) by (simp add: u_def)
  have d': "\<bar>d - Y\<bar> \<le> Y * u" using d by (simp only: u_def)
  have fin: "\<exists>p. Math_min (Num 100) (Math_max (Num 0) (num_mul (num_div N (Num d)) (Num 100))) = Num p
            \<and> \<bar>p - max 0 (min 100 E)\<bar> \<le> e44"
    using N
  proof (elim disjE conjE exE)
    assume inf: "N = Infinity" and lt: "Y < X"
    have "Y * (1 - u) \<le> d"
      using d' by (simp_all only: abs_le_iff right_diff_distrib mult_1_right) linarith
    moreover have "0 < Y * (1 - u)" using Y U(2) by simp
    ultimately have d0: "0 < d" by linarith
    have "num_mul (num_div N (Num d)) (Num 100) = Infinity"
      using d0 by (simp add: inf signedInfinity_def)
    then have "Math_min (Num 100) (Math_max (Num 0) (num_mul (num_div N (Num d)) (Num 100))) = Num 100"
      by (simp only: clamp_Infinity)
    moreover have "1 < \<rho>" using lt Y by (simp add: \<rho>_def)
    then have "100 < E" by (simp add: E_def)
    then have "max 0 (min 100 E) = 100" by simp
    ultimately show ?thesis using C(1,5) by simp
  next
    fix n
    assume Nn: "N = Num n" and "\<bar>n - X\<bar> \<le> X * 2 powi (- 53)"
    then have n': "\<bar>n - X\<bar> \<le> X * u" by (simp only: u_def)
    note rb = ratio_bounds [OF X Y U(1,2) n' d']
    define r where "r = n / d"
    have r0: "0 < r" using rb(1,2) by (simp add: r_def)
    define A where "A = (1 + u) / (1 - u)"
    define B where "B = (1 - u) / (1 + u)"
    have rA: "r \<le> \<rho> * A" and rB: "\<rho> * B \<le> r"
      using rb(3,4) by (simp_all only: r_def \<rho>_def A_def B_def)
    have A2: "A \<le> 2" and B2: "1 / 2 \<le> B" using U(6,7) by (simp_all only: A_def B_def)
    have "\<rho> * A \<le> \<rho> * 2" using A2 \<rho> by (intro mult_left_mono) simp_all
    with rA have r_le: "r \<le> 2 * \<rho>" by simp
    have "\<rho> * (1 / 2) \<le> \<rho> * B" using B2 \<rho> by (intro mult_left_mono) simp_all
    with rB have r_ge: "\<rho> \<le> 2 * r" by simp
    have E_le: "E \<le> 200 * r" using r_ge by (simp add: E_def)
    have E_ge: "50 * r \<le> E" using r_le by (simp add: E_def)
    have div: "num_div N (Num d) = toDouble r"
      using rb(2) by (simp add: Nn r_def)
    have u1: "0 \<le> 1 - u" "0 \<le> 1 + u" "1 - u \<le> 1" "1 + u \<le> 2" "1 / 2 \<le> 1 - u"
      using U(1,2) by simp_all
    text \<open>The result is 100 once the exact value is large.\<close>
    have full: ?thesis
      if "num_mul (num_div N (Num d)) (Num 100) = Infinity" and "100 \<le> E"
    proof -
      from that(1) have "Math_min (Num 100) (Math_max (Num 0) (num_mul (num_div N (Num d)) (Num 100))) = Num 100"
        by (simp only: clamp_Infinity)
      moreover have "max 0 (min 100 E) = 100" using that(2) by simp
      ultimately show ?thesis using C(1,5) by simp
    qed
    text \<open>Both values are tiny.\<close>
    have tiny: ?thesis
      if "num_mul (num_div N (Num d)) (Num 100) = Num p" and "0 \<le> p" and "p \<le> 400 * m1"
        and "E \<le> 400 * m1" for p
    proof -
      have "400 * m1 \<le> 100" using C(1,4) by linarith
      with that E0 have "\<bar>min 100 (max 0 p) - max 0 (min 100 E)\<bar> \<le> 400 * m1"
        by (intro clamp_small) simp_all
      with C(1) have "\<bar>min 100 (max 0 p) - max 0 (min 100 E)\<bar> \<le> e44" by linarith
      with that(1) show ?thesis by (simp add: clamp_Num)
    qed
    from toDouble_pos_cases [OF r0]
    consider (a) "toDouble r = Infinity" "big \<le> r"
      | (b) q where "toDouble r = Num q" "0 \<le> q" "\<bar>q - r\<bar> \<le> r * u"
      | (c) q where "toDouble r = Num q" "0 \<le> q" "r < m1" "\<bar>q - r\<bar> \<le> m2"
      unfolding big_def u_def m1_def m2_def by blast
    then show ?thesis
    proof cases
      case a
      have "num_mul (num_div N (Num d)) (Num 100) = Infinity"
        by (simp add: div a(1) signedInfinity_def)
      moreover have "100 \<le> E" using E_ge a(2) C(3) by linarith
      ultimately show ?thesis by (rule full)
    next
      case b
      note qb = relative_bounds [OF b(3)]
      have "r * (1 / 2) \<le> r * (1 - u)" using u1(5) r0 by (intro mult_left_mono) simp_all
      with qb(1) have q_ge: "r \<le> 2 * q" by simp
      then have q0: "0 < q" using r0 by linarith
      have "r * (1 + u) \<le> r * 2" using u1(4) r0 by (intro mult_left_mono) simp_all
      with qb(2) have q_le: "q \<le> 2 * r" by simp
      have mul: "num_mul (num_div N (Num d)) (Num 100) = toDouble (q * 100)"
        by (simp add: div b(1))
      have q100: "0 < q * 100" using q0 by simp
      from toDouble_pos_cases [OF q100]
      consider (A) "toDouble (q * 100) = Infinity" "big \<le> q * 100"
        | (B) p where "toDouble (q * 100) = Num p" "0 \<le> p" "\<bar>p - q * 100\<bar> \<le> q * 100 * u"
        | (C) p where "toDouble (q * 100) = Num p" "0 \<le> p" "q * 100 < m1" "\<bar>p - q * 100\<bar> \<le> m2"
        unfolding big_def u_def m1_def m2_def by blast
      then show ?thesis
      proof cases
        case A
        have "100 \<le> E" using E_ge q_le A(2) C(3) by linarith
        with mul A(1) show ?thesis by (intro full) simp
      next
        case B
        note pb = relative_bounds [OF B(3)]
        have "q * 100 * (1 + u) \<le> (r * (1 + u)) * 100 * (1 + u)"
          using qb(2) u1(2) by (intro mult_right_mono) simp_all
        also have "\<dots> \<le> (\<rho> * A * (1 + u)) * 100 * (1 + u)"
          using rA u1(2) by (intro mult_right_mono) simp_all
        also have "\<dots> = E * (A * (1 + u) * (1 + u))" by (simp add: E_def)
        also have "\<dots> \<le> E * (1 + 5 * u)"
          using U(3) E0 unfolding A_def by (intro mult_left_mono) simp_all
        finally have up: "p \<le> E * (1 + 5 * u)" using pb(2) by linarith
        have "E * (1 - 5 * u) \<le> E * (B * (1 - u) * (1 - u))"
          using U(4) E0 unfolding B_def by (intro mult_left_mono) simp_all
        also have "\<dots> = (\<rho> * B * (1 - u)) * 100 * (1 - u)" by (simp add: E_def)
        also have "\<dots> \<le> (r * (1 - u)) * 100 * (1 - u)"
          using rB u1(1) by (intro mult_right_mono) simp_all
        also have "\<dots> \<le> q * 100 * (1 - u)"
          using qb(1) u1(1) by (intro mult_right_mono) simp_all
        finally have lo: "E * (1 - 5 * u) \<le> p" using pb(1) by linarith
        from clamp_relative [OF E0 lo up U(1) u10]
        have "\<bar>min 100 (max 0 p) - max 0 (min 100 E)\<bar> \<le> e44"
          using U(5) unfolding e44_def by linarith
        with mul B(1) show ?thesis by (simp add: clamp_Num)
      next
        case C
        have "p \<le> q * 100 + m2" using C(4) by (simp only: abs_le_iff) linarith
        then have "p \<le> 400 * m1" using C(3) \<open>m2 \<le> m1\<close> \<open>0 < m1\<close> by linarith
        moreover have "E \<le> 400 * m1" using E_le q_ge C(3) \<open>0 < m1\<close> by linarith
        ultimately show ?thesis using mul C(1,2) by (intro tiny [of p]) simp_all
      qed
    next
      case c
      have q_le: "q \<le> 2 * m1" using c(3,4) \<open>m2 \<le> m1\<close> \<open>0 < m1\<close> by (simp only: abs_le_iff) linarith
      have El: "E \<le> 400 * m1" using E_le c(3) \<open>0 < m1\<close> by linarith
      have mul: "num_mul (num_div N (Num d)) (Num 100) = toDouble (q * 100)"
        by (simp add: div c(1))
      show ?thesis
      proof (cases "q = 0")
        case True
        then have "num_mul (num_div N (Num d)) (Num 100) = Num 0" by (simp add: mul)
        then show ?thesis using El \<open>0 < m1\<close> by (intro tiny [of 0]) simp_all
      next
        case False
        with c(2) have q100: "0 < q * 100" by simp
        from toDouble_pos_cases [OF q100]
        consider (A) "toDouble (q * 100) = Infinity" "big \<le> q * 100"
          | (B) p where "toDouble (q * 100) = Num p" "0 \<le> p" "\<bar>p - q * 100\<bar> \<le> q * 100 * u"
          | (C) p where "toDouble (q * 100) = Num p" "0 \<le> p" "q * 100 < m1" "\<bar>p - q * 100\<bar> \<le> m2"
          unfolding big_def u_def m1_def m2_def by blast
        then show ?thesis
        proof cases
          case A
          have "m1 \<le> 1" using C(1,4) \<open>0 < m1\<close> by linarith
          with A(2) q_le C(3) show ?thesis by linarith
        next
          case B
          note pb = relative_bounds [OF B(3)]
          have "q * 100 * (1 + u) \<le> q * 100 * 2"
            using u1(4) q100 by (intro mult_left_mono) simp_all
          with pb(2) q_le have "p \<le> 400 * m1" by linarith
          with mul B(1,2) El show ?thesis by (intro tiny [of p]) simp_all
        next
          case C
          have "p \<le> q * 100 + m2" using C(4) by (simp only: abs_le_iff) linarith
          then have "p \<le> 400 * m1" using C(3) \<open>m2 \<le> m1\<close> \<open>0 < m1\<close> by linarith
          with mul C(1,2) El show ?thesis by (intro tiny [of p]) simp_all
        qed
      qed
    qed
  qed
  then show ?thesis by (simp only: goalE e44_def)
qed

text \<open>
  Claim C2, as amended. For settings whose starting and target capital are finite doubles with
  the starting capital below the target (and a difference that does not overflow), the progress
  percent is a number between 0 and 100; it is 0 whenever the current capital is at or below
  the starting capital and 100 whenever it is at or above the target. Whenever the current
  capital is a finite double too (and so for integer amounts up to \<open>2^52\<close> in magnitude) it
  differs from the exact value of \<open>100 * (current - starting) / (target - starting)\<close>
  clamped to \<open>[0, 100]\<close> by at most \<open>2^-44\<close>, the effect of rounding the two differences,
  the quotient and the product.
\<close>

theorem progressPercent_clamped:
  assumes "startingCapital S = Num s" and "targetCapital S = Num t" and "currentCapital S = Num c"
    and "isDouble s" and "isDouble t"
    and "s < t"
    and "num_sub (Num t) (Num s) \<noteq> Infinity"
  shows "(\<exists>p. progressPercent S = Num p \<and> 0 \<le> p \<and> p \<le> 100)
       \<and> (c \<le> s \<longrightarrow> progressPercent S = Num 0)
       \<and> (t \<le> c \<longrightarrow> progressPercent S = Num 100)
       \<and> (\<forall>i j k. s = of_int i \<and> t = of_int j \<and> c = of_int k
              \<and> \<bar>i\<bar> \<le> 2 ^ 52 \<and> \<bar>j\<bar> \<le> 2 ^ 52 \<and> \<bar>k\<bar> \<le> 2 ^ 52 \<longrightarrow>
            (\<exists>p. progressPercent S = Num p
               \<and> \<bar>p - max 0 (min 100 (100 * (c - s) / (t - s)))\<bar> \<le> 2 powi (- 44)))
       \<and> (isDouble c \<longrightarrow>
            (\<exists>p. progressPercent S = Num p
               \<and> \<bar>p - max 0 (min 100 (100 * (c - s) / (t - s)))\<bar> \<le> 2 powi (- 44)))"
proof -
  define N where "N = num_sub (Num c) (Num s)"
  have N: "N = toDouble (c - s)" by (simp add: N_def num_sub_Num)
  from num_sub_doubles_pos [OF assms(4,5,6)] assms(7) obtain d
    where d: "num_sub (Num t) (Num s) = Num d" "0 < d"
    by (auto simp add: num_sub_Num)
  have pp: "progressPercent S = Math_min (Num 100) (Math_max (Num 0) (num_mul (num_div N (Num d)) (Num 100)))"
    by (simp add: progressPercent_def assms(1-3) N_def d(1))
  have low: "progressPercent S = Num 0" if "c \<le> s"
  proof -
    from that have "c - s \<le> 0" by simp
    then have "N = NegInfinity \<or> (\<exists>n. N = Num n \<and> n \<le> 0)"
      unfolding N by (rule toDouble_nonpos)
    then show ?thesis
      unfolding pp using d(2) by (rule percent_nonpos)
  qed
  have high: "progressPercent S = Num 100" if "t \<le> c"
  proof -
    from that have "t - s \<le> c - s" by simp
    then have "num_le (toDouble (t - s)) (toDouble (c - s))" by (rule toDouble_mono)
    then have "num_le (Num d) N" using d(1) by (simp add: N num_sub_Num)
    then show ?thesis
      unfolding pp using d(2) by (rule percent_full)
  qed
  have mid: "\<exists>p. progressPercent S = Num p \<and> 0 \<le> p \<and> p \<le> 100" if "s \<le> c" "c \<le> t"
  proof -
    from that have "0 \<le> c - s" "c - s \<le> t - s" by simp_all
    then have "num_le (toDouble 0) (toDouble (c - s))" "num_le (toDouble (c - s)) (toDouble (t - s))"
      by (simp_all only: toDouble_mono)
    then obtain n where n: "N = Num n" "0 \<le> n" "n \<le> d"
      using d(1) by (cases "toDouble (c - s)") (simp_all add: N num_sub_Num)
    from percent_between [OF n(2,3) d(2)] obtain p
      where "num_mul (num_div (Num n) (Num d)) (Num 100) = Num p" "0 \<le> p" "p \<le> 100" by blast
    then show ?thesis
      by (simp add: pp n(1) clamp_Num)
  qed
  have range: "\<exists>p. progressPercent S = Num p \<and> 0 \<le> p \<and> p \<le> 100"
  proof -
    consider "c \<le> s" | "t \<le> c" | "s \<le> c" "c \<le> t" by linarith
    then show ?thesis
    proof cases
      case 1
      then show ?thesis by (simp add: low)
    next
      case 2
      then show ?thesis by (simp add: high)
    next
      case 3
      then show ?thesis by (rule mid)
    qed
  qed
  have approx: "\<exists>p. progressPercent S = Num p
               \<and> \<bar>p - max 0 (min 100 (100 * (c - s) / (t - s)))\<bar> \<le> 2 powi (- 44)"
    if h: "s = of_int i \<and> t = of_int j \<and> c = of_int k
              \<and> \<bar>i\<bar> \<le> 2 ^ 52 \<and> \<bar>j\<bar> \<le> 2 ^ 52 \<and> \<bar>k\<bar> \<le> 2 ^ 52" for i j k
  proof -
    have ts: "0 < t - s" using assms(6) by simp
    consider "c \<le> s" | "t \<le> c" | "s < c" "c < t" by linarith
    then show ?thesis
    proof cases
      case 1
      then have "100 * (c - s) / (t - s) \<le> 0"
        using ts by (simp add: divide_nonpos_pos mult_nonneg_nonpos)
      then have "max 0 (min 100 (100 * (c - s) / (t - s))) = 0" by simp
      then show ?thesis using 1 by (simp add: low)
    next
      case 2
      then have "t - s \<le> c - s" by simp
      then have "100 \<le> 100 * (c - s) / (t - s)"
        using ts by (simp add: pos_le_divide_eq)
      then have "max 0 (min 100 (100 * (c - s) / (t - s))) = 100" by simp
      then show ?thesis using 2 by (simp add: high)
    next
      case 3
      from h have ki: "\<bar>k - i\<bar> \<le> 2 ^ 53" and ji: "\<bar>j - i\<bar> \<le> 2 ^ 53" by auto
      have cs: "c - s = of_int (k - i)" and tsi: "t - s = of_int (j - i)" using h by simp_all
      have Nn: "N = Num (c - s)"
        unfolding N cs using ki by (rule toDouble_of_int)
      have "toDouble (t - s) = Num (t - s)"
        unfolding tsi using ji by (rule toDouble_of_int)
      then have dd: "d = t - s" using d(1) by (simp add: num_sub_Num)
      define q where "q = (c - s) / (t - s)"
      have "1 \<le> k - i" using 3(1) h by simp
      then have "(of_int 1 :: rat) \<le> of_int (k - i)" by (simp only: of_int_le_iff)
      then have "(1::rat) \<le> c - s" unfolding cs by simp
      moreover have "j - i \<le> 2 ^ 53" using ji by simp
      then have "(of_int (j - i) :: rat) \<le> of_int (2 ^ 53)" by (simp only: of_int_le_iff)
      then have "t - s \<le> 2 ^ 53" unfolding tsi by simp
      ultimately have "1 / 2 ^ 53 \<le> q"
        using ts by (simp add: q_def field_simps)
      then have q1: "2 powi (- 53) \<le> q" by simp
      have q2: "q \<le> 1" using 3(2) ts by (simp add: q_def)
      from percent_error [OF q1 _ q2] obtain b
        where b: "num_mul (toDouble q) (Num 100) = Num b" "\<bar>b - 100 * q\<bar> \<le> 2 powi (- 44)"
        by auto
      have "num_div N (Num d) = toDouble q"
        using ts by (simp add: Nn dd q_def)
      then have p: "progressPercent S = Num (min 100 (max 0 b))"
        by (simp add: pp b(1) clamp_Num)
      have "0 \<le> q" using 3 ts by (simp add: q_def)
      then have q0: "0 \<le> 100 * q" "100 * q \<le> 100"
        using q2 by simp_all
      then have "max 0 (min 100 (100 * q)) = 100 * q" by simp
      moreover have "\<bar>min 100 (max 0 b) - 100 * q\<bar> \<le> \<bar>b - 100 * q\<bar>"
        using q0 by (simp add: min_def max_def abs_if)
      moreover have "100 * (c - s) / (t - s) = 100 * q" by (simp add: q_def)
      ultimately have "\<bar>min 100 (max 0 b) - max 0 (min 100 (100 * (c - s) / (t - s)))\<bar> \<le> 2 powi (- 44)"
        using b(2) by simp
      with p show ?thesis by blast
    qed
  qed
  have general: "\<exists>p. progressPercent S = Num p
               \<and> \<bar>p - max 0 (min 100 (100 * (c - s) / (t - s)))\<bar> \<le> 2 powi (- 44)"
    if dc: "isDouble c"
  proof (cases "c \<le> s")
    case True
    have ts: "0 < t - s" using assms(6) by simp
    from True have "100 * (c - s) / (t - s) \<le> 0"
      using ts by (simp add: divide_nonpos_pos mult_nonneg_nonpos)
    then have "max 0 (min 100 (100 * (c - s) / (t - s))) = 0" by simp
    then show ?thesis using True by (simp add: low)
  next
    case False
    then have sc: "s < c" by simp
    then have X: "0 < c - s" by simp
    have Y: "0 < t - s" using assms(6) by simp
    from double_difference [OF assms(4,5,6)] d(1)
    have dY: "\<bar>d - (t - s)\<bar> \<le> (t - s) * 2 powi (- 53)"
      by (auto simp add: num_sub_Num)
    have NN: "N = Infinity \<and> t - s < c - s
        \<or> (\<exists>n. N = Num n \<and> \<bar>n - (c - s)\<bar> \<le> (c - s) * 2 powi (- 53))"
    proof (cases "N = Infinity")
      case True
      have "t - s < c - s"
      proof (rule ccontr)
        assume "\<not> t - s < c - s"
        then have "c - s \<le> t - s" by simp
        then have "num_le (toDouble (c - s)) (toDouble (t - s))" by (rule toDouble_mono)
        then show False using True d(1) by (simp add: N num_sub_Num)
      qed
      with True show ?thesis by simp
    next
      case False
      with double_difference [OF assms(4) dc sc] show ?thesis by (simp add: N)
    qed
    from percent_relative [OF X Y NN dY] show ?thesis by (simp only: pp)
  qed
  from range low high approx general show ?thesis by blast
qed

theorem progressPercent_clamped_witness:
  "progressPercent defaultSettings = Num 0
   \<and> progressPercent (defaultSettings\<lparr>currentCapital := Num 12000\<rparr>) = Num 100"
proof -
  have d: "isDouble 4705" "isDouble 10000"
    by (simp_all add: isDouble_def)
  have f: "num_sub (Num 10000) (Num 4705) \<noteq> Infinity"
    by (simp add: num_sub_Num)
  have "progressPercent defaultSettings = Num 0"
    using progressPercent_clamped [of defaultSettings 4705 10000 4705, OF _ _ _ d _ f]
    by (simp add: defaultSettings_def)
  moreover have "progressPercent (defaultSettings\<lparr>currentCapital := Num 12000\<rparr>) = Num 100"
    using progressPercent_clamped [of "defaultSettings\<lparr>currentCapital := Num 12000\<rparr>"
        4705 10000 12000, OF _ _ _ d _ f]
    by (simp add: defaultSettings_def)
  ultimately show ?thesis
    by (rule conjI)
qed

text \<open>
  The claim as stated fails when the target is not above the starting capital. With starting
  capital 100, target 50 and current capital 200 the current capital is above the target and
  the result is 0, not 100; with all three equal to 0 the result is NaN.
\<close>

theorem progressPercent_target_below_start_counterexample:
  "progressPercent \<lparr>startingCapital = Num 100, targetCapital = Num 50, weeklyInjection = Num 60,
                    currentCapital = Num 200\<rparr> = Num 0
   \<and> progressPercent \<lparr>startingCapital = Num 100, targetCapital = Num 50, weeklyInjection = Num 60,
                      currentCapital = Num 200\<rparr> \<noteq> Num 100
   \<and> progressPercent \<lparr>startingCapital = Num 0, targetCapital = Num 0, weeklyInjection = Num 60,
                      currentCapital = Num 0\<rparr> = NaN"
  by (simp add: progressPercent_def num_sub_Num Math_min_def Math_max_def signedInfinity_def)

section \<open>Submitting a drill\<close>

lemma trim_eq_Nil_iff: "trim s = [] \<longleftrightarrow> (\<forall>c \<in> set s. isWhiteSpace c)"
proof
  assume "trim s = []"
  then have a: "\<forall>c \<in> set (dropWhile isWhiteSpace s). isWhiteSpace c"
    by (simp add: trim_def)
  have "dropWhile isWhiteSpace s = []"
  proof (rule ccontr)
    assume ne: "dropWhile isWhiteSpace s \<noteq> []"
    then have "\<not> isWhiteSpace (hd (dropWhile isWhiteSpace s))"
      by (rule hd_dropWhile)
    moreover have "hd (dropWhile isWhiteSpace s) \<in> set (dropWhile isWhiteSpace s)"
      using ne by (rule hd_in_set)
    ultimately show False using a by blast
  qed
  then show "\<forall>c \<in> set s. isWhiteSpace c"
    by simp
next
  assume "\<forall>c \<in> set s. isWhiteSpace c"
  then have "dropWhile isWhiteSpace s = []"
    by simp
  then have "trim s = rev (dropWhile isWhiteSpace (rev []))"
    by (simp only: trim_def)
  then show "trim s = []"
    by simp
qed

text \<open>
  Claim C7, as amended. A submission whose weapon field is empty or consists only of white
  space (the code units that \<open>trim\<close> strips: TAB, LF, VT, FF, CR, the space, the no-break
  space, the other Unicode space separators, the line and paragraph separators and the byte
  order mark) changes nothing: the handler returns the form and the component state as they
  were. A submission whose weapon field has a code unit that is not white space appends
  exactly one entry, which carries the weapon as typed, the intensity and the category.
\<close>

theorem WeaponDrills_handleSubmit_blank:
  "((\<forall>c \<in> set (weapon_input f). isWhiteSpace c) \<longrightarrow>
      WeaponDrills_handleSubmit clock f st = (f, st))
   \<and> ((\<exists>c \<in> set (weapon_input f). \<not> isWhiteSpace c) \<longrightarrow>
      (\<exists>entry. drillEntries (snd (WeaponDrills_handleSubmit clock f st)) = drillEntries st @ [entry]
         \<and> weapon entry = weapon_input f \<and> intensity entry = intensity_input f
         \<and> category entry = category_input f))"
proof (intro conjI impI)
  assume "\<forall>c \<in> set (weapon_input f). isWhiteSpace c"
  then have "trim (weapon_input f) = []"
    by (simp only: trim_eq_Nil_iff)
  then show "WeaponDrills_handleSubmit clock f st = (f, st)"
    by (simp add: WeaponDrills_handleSubmit_def)
next
  assume "\<exists>c \<in> set (weapon_input f). \<not> isWhiteSpace c"
  then have "trim (weapon_input f) \<noteq> []"
    by (simp only: trim_eq_Nil_iff) blast
  then show "\<exists>entry. drillEntries (snd (WeaponDrills_handleSubmit clock f st)) = drillEntries st @ [entry]
         \<and> weapon entry = weapon_input f \<and> intensity entry = intensity_input f
         \<and> category entry = category_input f"
    by (simp add: WeaponDrills_handleSubmit_def onAddDrill_def setDrillEntries_def Let_def)
qed

text \<open>
  A weapon field holding a space, a no-break space and an ideographic space is rejected; the
  weapon \<open>Aim\<close> is accepted, also with a space before it.
\<close>

theorem WeaponDrills_handleSubmit_blank_witness:
  "WeaponDrills_handleSubmit sampleClock
      \<lparr>weapon_input = [0x20, 0xA0, 0x3000], intensity_input = Num 7, category_input = SKILL\<rparr>
      initialState
    = (\<lparr>weapon_input = [0x20, 0xA0, 0x3000], intensity_input = Num 7, category_input = SKILL\<rparr>,
       initialState)
   \<and> map weapon (drillEntries (snd (WeaponDrills_handleSubmit sampleClock
      \<lparr>weapon_input = lit '' Aim'', intensity_input = Num 7, category_input = SKILL\<rparr>
      initialState))) = [lit '' Aim'']"
proof -
  define blank :: WeaponDrills
    where "blank = \<lparr>weapon_input = [0x20, 0xA0, 0x3000], intensity_input = Num 7, category_input = SKILL\<rparr>"
  define aim :: WeaponDrills
    where "aim = \<lparr>weapon_input = lit '' Aim'', intensity_input = Num 7, category_input = SKILL\<rparr>"
  have a: "\<forall>c \<in> set (weapon_input blank). isWhiteSpace c"
    by (simp add: blank_def isWhiteSpace_def)
  have b: "\<exists>c \<in> set (weapon_input aim). \<not> isWhiteSpace c"
    by (simp add: aim_def isWhiteSpace_def lit_Cons)
  from a have "WeaponDrills_handleSubmit sampleClock blank initialState = (blank, initialState)"
    using WeaponDrills_handleSubmit_blank [of blank sampleClock initialState]
    by blast
  moreover from b obtain entry
    where "drillEntries (snd (WeaponDrills_handleSubmit sampleClock aim initialState))
             = drillEntries initialState @ [entry]"
      and "weapon entry = weapon_input aim"
    using WeaponDrills_handleSubmit_blank [of aim sampleClock initialState]
    by blast
  then have "map weapon (drillEntries (snd (WeaponDrills_handleSubmit sampleClock aim initialState)))
      = [lit '' Aim'']"
    by (simp add: initialState_def aim_def)
  ultimately show ?thesis
    unfolding blank_def aim_def by (rule conjI)
qed

text \<open>
  The claim as stated fails: a weapon field holding a single space is not empty, and the
  submission appends nothing.
\<close>

theorem WeaponDrills_nonempty_counterexample:
  "weapon_input \<lparr>weapon_input = lit '' '', intensity_input = Num 7, category_input = SKILL\<rparr> \<noteq> []
   \<and> drillEntries (snd (WeaponDrills_handleSubmit sampleClock
        \<lparr>weapon_input = lit '' '', intensity_input = Num 7, category_input = SKILL\<rparr> initialState))
     = drillEntries initialState"
  by (simp add: WeaponDrills_handleSubmit_def trim_def isWhiteSpace_def lit_Cons)

section \<open>Loading from storage\<close>

lemma loadFromStorage_returns: "\<exists>v. loadFromStorage JSON_parse w key d = Inr v"
  by (simp add: loadFromStorage_def split: option.split sum.split)

text \<open>
  Claim C8. \<open>loadFromStorage\<close> never lets an exception reach the caller. It returns the
  parsed value when the key is present and its text parses, and the default value when the key
  is absent, when the text does not parse, when access to the storage throws, and when there is
  no window. The host's parser rejects the empty text, as \<open>JSON.parse\<close> does.
\<close>

theorem loadFromStorage_never_raises:
  assumes "JSON_parse [] = Inl SyntaxError"
  shows "(\<exists>v. loadFromStorage JSON_parse w key d = Inr v)
   \<and> (\<forall>ls s v. w = Some ls \<and> getItem ls key = Inr (Some s) \<and> JSON_parse s = Inr v \<longrightarrow>
         loadFromStorage JSON_parse w key d = Inr v)
   \<and> (\<forall>ls. w = Some ls \<and> getItem ls key = Inr None \<longrightarrow>
         loadFromStorage JSON_parse w key d = Inr d)
   \<and> (\<forall>ls s e. w = Some ls \<and> getItem ls key = Inr (Some s) \<and> JSON_parse s = Inl e \<longrightarrow>
         loadFromStorage JSON_parse w key d = Inr d)
   \<and> (\<forall>ls e. w = Some ls \<and> getItem ls key = Inl e \<longrightarrow>
         loadFromStorage JSON_parse w key d = Inr d)
   \<and> (w = None \<longrightarrow> loadFromStorage JSON_parse w key d = Inr d)"
proof (intro conjI allI impI)
  show "\<exists>v. loadFromStorage JSON_parse w key d = Inr v"
    by (simp add: loadFromStorage_def split: option.split sum.split)
next
  fix ls s v
  assume h: "w = Some ls \<and> getItem ls key = Inr (Some s) \<and> JSON_parse s = Inr v"
  with assms have "s \<noteq> []" by auto
  with h show "loadFromStorage JSON_parse w key d = Inr v"
    by (simp add: loadFromStorage_def loadFromStorage_try_def)
next
  fix ls
  assume "w = Some ls \<and> getItem ls key = Inr None"
  then show "loadFromStorage JSON_parse w key d = Inr d"
    by (simp add: loadFromStorage_def loadFromStorage_try_def)
next
  fix ls s e
  assume "w = Some ls \<and> getItem ls key = Inr (Some s) \<and> JSON_parse s = Inl e"
  then show "loadFromStorage JSON_parse w key d = Inr d"
    by (simp add: loadFromStorage_def loadFromStorage_try_def)
next
  fix ls e
  assume "w = Some ls \<and> getItem ls key = Inl e"
  then show "loadFromStorage JSON_parse w key d = Inr d"
    by (simp add: loadFromStorage_def loadFromStorage_try_def)
next
  assume "w = None"
  then show "loadFromStorage JSON_parse w key d = Inr d"
    by (simp add: loadFromStorage_def)
qed

theorem loadFromStorage_never_raises_witness:
  "sampleParse [] = Inl SyntaxError
   \<and> loadFromStorage sampleParse (Some sampleStorage) (lit ''bluelock_ego'') [0] = Inr [7]
   \<and> loadFromStorage sampleParse (Some sampleStorage) (lit ''bluelock_trades'') [0] = Inr [0]
   \<and> loadFromStorage sampleParse (Some sampleStorage) (lit ''bluelock_drills'') [0] = Inr [0]
   \<and> loadFromStorage sampleParse (Some (sampleStorage\<lparr>accessible := False\<rparr>)) (lit ''bluelock_ego'') [0]
       = Inr [0]
   \<and> loadFromStorage sampleParse None (lit ''bluelock_ego'') [0] = Inr [0]"
proof -
  have p: "sampleParse [] = Inl SyntaxError"
    by (simp add: sampleParse_def)
  have "loadFromStorage sampleParse (Some sampleStorage) (lit ''bluelock_ego'') [0] = Inr [7]"
    using loadFromStorage_never_raises [of sampleParse "Some sampleStorage" "lit ''bluelock_ego''" "[0]", OF p]
    by (simp add: getItem_def sampleStorage_def sampleParse_def)
  moreover have "loadFromStorage sampleParse (Some sampleStorage) (lit ''bluelock_trades'') [0] = Inr [0]"
    using loadFromStorage_never_raises [of sampleParse "Some sampleStorage" "lit ''bluelock_trades''" "[0]", OF p]
    by (simp add: getItem_def sampleStorage_def sampleParse_def)
  moreover have "loadFromStorage sampleParse (Some sampleStorage) (lit ''bluelock_drills'') [0] = Inr [0]"
    using loadFromStorage_never_raises [of sampleParse "Some sampleStorage" "lit ''bluelock_drills''" "[0]", OF p]
    by (simp add: getItem_def sampleStorage_def)
  moreover have "loadFromStorage sampleParse (Some (sampleStorage\<lparr>accessible := False\<rparr>))
      (lit ''bluelock_ego'') [0] = Inr [0]"
    using loadFromStorage_never_raises [of sampleParse "Some (sampleStorage\<lparr>accessible := False\<rparr>)" "lit ''bluelock_ego''" "[0]", OF p]
    by (simp add: getItem_def)
  moreover have "loadFromStorage sampleParse None (lit ''bluelock_ego'') [0] = Inr [0]"
    using loadFromStorage_never_raises [of sampleParse None "lit ''bluelock_ego''" "[0]", OF p]
    by simp
  ultimately show ?thesis
    using p by simp
qed

section \<open>Submitting a trade\<close>

lemma takeWhile_none: "\<forall>c \<in> set xs. \<not> P c \<Longrightarrow> takeWhile P xs = []"
  by (cases xs) simp_all

lemma dropWhile_none: "\<forall>c \<in> set xs. \<not> P c \<Longrightarrow> dropWhile P xs = xs"
  by (cases xs) simp_all

lemma set_tl_subset: "set (tl xs) \<subseteq> set xs"
  by (cases xs) auto

lemma set_strip_subset:
  "set (if dropWhile P s \<noteq> [] \<and> Q (hd (dropWhile P s)) then tl (dropWhile P s) else dropWhile P s)
     \<subseteq> set s"
  using set_tl_subset [of "dropWhile P s"] set_dropWhileD [of _ P s] by auto

lemma parseFloat_no_digit:
  assumes "\<forall>c \<in> set s. \<not> isDigit c \<and> c \<noteq> of_char CHR ''I''"
  shows "parseFloat s = NaN"
proof -
  define s1 where "s1 = (if dropWhile isWhiteSpace s \<noteq> []
       \<and> (hd (dropWhile isWhiteSpace s) = of_char CHR ''-'' \<or> hd (dropWhile isWhiteSpace s) = of_char CHR ''+'')
     then tl (dropWhile isWhiteSpace s) else dropWhile isWhiteSpace s)"
  have s1_sub: "set s1 \<subseteq> set s"
    unfolding s1_def by (rule set_strip_subset)
  have inf: "take 8 s1 \<noteq> lit ''Infinity''"
  proof
    assume "take 8 s1 = lit ''Infinity''"
    then have "of_char CHR ''I'' \<in> set (take 8 s1)" by (simp add: lit_Cons)
    then have "of_char CHR ''I'' \<in> set s1" by (rule in_set_takeD)
    with s1_sub assms show False by blast
  qed
  have nd: "\<forall>c \<in> set s1. \<not> isDigit c"
    using s1_sub assms by blast
  then have nd': "\<forall>c \<in> set (tl s1). \<not> isDigit c"
    using set_tl_subset [of s1] by blast
  have "parseFloat s =
     (if take 8 s1 = lit ''Infinity''
      then (if dropWhile isWhiteSpace s \<noteq> [] \<and> hd (dropWhile isWhiteSpace s) = of_char CHR ''-''
            then NegInfinity else Infinity)
      else
           (let ip = takeWhile isDigit s1;
                r1 = dropWhile isDigit s1;
                dot = (r1 \<noteq> [] \<and> hd r1 = of_char CHR ''.'');
                fp = (if dot then takeWhile isDigit (tl r1) else []);
                r2 = (if dot then dropWhile isDigit (tl r1) else r1)
            in if ip = [] \<and> fp = [] then NaN
               else
                 (let mv = of_nat (digitsValue 10 (ip @ fp))
                             * 10 powi (exponentPart r2 - int (length fp))
                  in toDouble (if dropWhile isWhiteSpace s \<noteq> [] \<and> hd (dropWhile isWhiteSpace s) = of_char CHR ''-'' then - mv else mv))))"
    unfolding parseFloat_def s1_def Let_def by (rule refl)
  then show ?thesis
    by (simp add: inf takeWhile_none [OF nd] dropWhile_none [OF nd] takeWhile_none [OF nd'] Let_def)
qed

lemma parseInt_no_digit:
  assumes "\<forall>c \<in> set s. \<not> isDigit c"
  shows "parseInt s = NaN"
proof -
  define s1 where "s1 = (if dropWhile isWhiteSpace s \<noteq> []
       \<and> (hd (dropWhile isWhiteSpace s) = of_char CHR ''-'' \<or> hd (dropWhile isWhiteSpace s) = of_char CHR ''+'')
     then tl (dropWhile isWhiteSpace s) else dropWhile isWhiteSpace s)"
  have s1_sub: "set s1 \<subseteq> set s"
    unfolding s1_def by (rule set_strip_subset)
  have nd: "\<forall>c \<in> set s1. \<not> isDigit c"
    using s1_sub assms by blast
  have hex: "\<not> (take 2 s1 = lit ''0x'' \<or> take 2 s1 = lit ''0X'')"
  proof
    assume "take 2 s1 = lit ''0x'' \<or> take 2 s1 = lit ''0X''"
    then have "of_char CHR ''0'' \<in> set (take 2 s1)" by (auto simp add: lit_Cons)
    then have "of_char CHR ''0'' \<in> set s1" by (rule in_set_takeD)
    with nd show False by (auto simp add: isDigit_def)
  qed
  have "\<forall>c \<in> set s1. \<not> (digitValue 10 c \<noteq> None)"
    using nd by (auto simp add: digitValue_def isDigit_def Let_def split: if_splits)
  then have z: "takeWhile (\<lambda>c. digitValue 10 c \<noteq> None) s1 = []"
    by (rule takeWhile_none)
  have "parseInt s =
     (let hex = (take 2 s1 = lit ''0x'' \<or> take 2 s1 = lit ''0X'');
          radix = (if hex then 16 else 10);
          s2 = (if hex then drop 2 s1 else s1);
          z = takeWhile (\<lambda>c. digitValue radix c \<noteq> None) s2
      in if z = [] then NaN
         else toDouble (if dropWhile isWhiteSpace s \<noteq> [] \<and> hd (dropWhile isWhiteSpace s) = of_char CHR ''-'' then - of_nat (digitsValue radix z)
                        else of_nat (digitsValue radix z)))"
    unfolding parseInt_def s1_def Let_def by (rule refl)
  moreover have "takeWhile (\<lambda>c. \<exists>y. digitValue 10 c = Some y) s1 = []"
    using z by simp
  ultimately show ?thesis
    using hex by (simp add: Let_def)
qed

lemma parseFloat_empty: "parseFloat [] = NaN"
  by (simp add: parseFloat_def)

lemma parseInt_zero: "parseInt (lit ''0'') = Num 0"
  by (simp add: parseInt_def isWhiteSpace_def digitValue_def digitsValue_def toDouble_def lit_Cons)

lemma pnl_zero: "num_mul (num_sub (Num 0) (Num 0)) (Num 1) = Num 0"
  by (simp add: num_sub_def toDouble_def)

text \<open>The decimal digits of a number, read back.\<close>

lemma unat_digit: "d < 10 \<Longrightarrow> unat (of_nat (48 + d) :: codeUnit) = 48 + d"
  by (simp only: unat_of_nat) simp

lemma isDigit_digit: "d < 10 \<Longrightarrow> isDigit (of_nat (48 + d))"
  by (simp add: isDigit_def unat_digit del: of_nat_add)

lemma digitValue_digit: "d < 10 \<Longrightarrow> digitValue 10 (of_nat (48 + d)) = Some d"
  by (simp add: digitValue_def unat_digit Let_def del: of_nat_add)

lemma digitsValue_snoc:
  "digitsValue radix (ds @ [c])
     = radix * digitsValue radix ds + (case digitValue radix c of None \<Rightarrow> 0 | Some v \<Rightarrow> v)"
  by (simp add: digitsValue_def)

lemma toString_digits: "\<forall>c \<in> set (toString n). isDigit c"
proof (induction n rule: toString.induct)
  case (1 n)
  show ?case
  proof (cases "n < 10")
    case True
    then show ?thesis by (simp add: toString.simps [of n] isDigit_digit del: of_nat_add)
  next
    case False
    with 1 have "\<forall>c \<in> set (toString (n div 10)). isDigit c" by simp
    moreover have "isDigit (of_nat (48 + n mod 10))" by (rule isDigit_digit) simp
    ultimately show ?thesis using False by (simp add: toString.simps [of n] del: of_nat_add)
  qed
qed

lemma toString_nonempty: "toString n \<noteq> []"
  by (simp add: toString.simps [of n])

lemma digitsValue_toString: "digitsValue 10 (toString n) = n"
proof (induction n rule: toString.induct)
  case (1 n)
  show ?case
  proof (cases "n < 10")
    case True
    then show ?thesis
      by (simp add: toString.simps [of n] digitsValue_def digitValue_digit del: of_nat_add)
  next
    case False
    with 1 have "digitsValue 10 (toString (n div 10)) = n div 10" by simp
    moreover have "digitValue 10 (of_nat (48 + n mod 10)) = Some (n mod 10)"
      by (rule digitValue_digit) simp
    ultimately show ?thesis
      using False by (simp add: toString.simps [of n] digitsValue_snoc del: of_nat_add)
  qed
qed

text \<open>\<open>parseFloat\<close> and \<open>parseInt\<close> on a text of decimal digits.\<close>

lemma isDigit_not_special:
  assumes "isDigit c"
  shows "\<not> isWhiteSpace c" "c \<noteq> of_char CHR ''-''" "c \<noteq> of_char CHR ''+''"
    "c \<noteq> of_char CHR ''I''" "c \<noteq> of_char CHR ''x''" "c \<noteq> of_char CHR ''X''"
    "c \<noteq> of_char CHR ''.''" "c \<noteq> of_char CHR ''e''" "c \<noteq> of_char CHR ''E''"
    "digitValue 10 c \<noteq> None"
  using assms by (auto simp add: isDigit_def isWhiteSpace_def digitValue_def Let_def)

lemma takeWhile_all: "\<forall>c \<in> set xs. P c \<Longrightarrow> takeWhile P xs = xs"
  by (induction xs) simp_all

lemma dropWhile_all: "\<forall>c \<in> set xs. P c \<Longrightarrow> dropWhile P xs = []"
  by (induction xs) simp_all

lemma dropWhile_hd: "xs \<noteq> [] \<Longrightarrow> \<not> P (hd xs) \<Longrightarrow> dropWhile P xs = xs"
  by (cases xs) simp_all

lemma parseFloat_digits:
  assumes "ds \<noteq> []" and "\<forall>c \<in> set ds. isDigit c"
  shows "parseFloat ds = toDouble (of_nat (digitsValue 10 ds))"
proof -
  have h: "isDigit (hd ds)" using assms by simp
  have ws: "dropWhile isWhiteSpace ds = ds"
    using assms(1) isDigit_not_special(1) [OF h] by (rule dropWhile_hd)
  have inf: "take 8 ds \<noteq> lit ''Infinity''"
  proof
    assume "take 8 ds = lit ''Infinity''"
    then have "hd (take 8 ds) = of_char CHR ''I''" by (simp add: lit_Cons)
    then have "hd ds = of_char CHR ''I''" using assms(1) by (cases ds) simp_all
    with isDigit_not_special(4) [OF h] show False by simp
  qed
  show ?thesis
    using assms(1) isDigit_not_special(2,3) [OF h] inf
    by (simp add: parseFloat_def ws takeWhile_all [OF assms(2)] dropWhile_all [OF assms(2)]
        exponentPart_def Let_def)
qed

lemma parseInt_digits:
  assumes "ds \<noteq> []" and "\<forall>c \<in> set ds. isDigit c"
  shows "parseInt ds = toDouble (of_nat (digitsValue 10 ds))"
proof -
  have h: "isDigit (hd ds)" using assms by simp
  have ws: "dropWhile isWhiteSpace ds = ds"
    using assms(1) isDigit_not_special(1) [OF h] by (rule dropWhile_hd)
  have hex: "take 2 ds \<noteq> lit ''0x''" "take 2 ds \<noteq> lit ''0X''"
  proof -
    have "\<forall>c \<in> set (take 2 ds). isDigit c" using assms(2) by (meson in_set_takeD)
    moreover have "of_char CHR ''x'' \<in> set (lit ''0x'')" "of_char CHR ''X'' \<in> set (lit ''0X'')"
      by (simp_all add: lit_Cons)
    ultimately show "take 2 ds \<noteq> lit ''0x''" "take 2 ds \<noteq> lit ''0X''"
      using isDigit_not_special(5,6) by metis+
  qed
  have z: "takeWhile (\<lambda>c. digitValue 10 c \<noteq> None) ds = ds"
    using assms(2) isDigit_not_special(10) by (intro takeWhile_all) blast
  have "parseInt ds =
     (let negative = (ds \<noteq> [] \<and> hd ds = of_char CHR ''-'');
          s1 = (if ds \<noteq> [] \<and> (hd ds = of_char CHR ''-'' \<or> hd ds = of_char CHR ''+'') then tl ds else ds);
          hex = (take 2 s1 = lit ''0x'' \<or> take 2 s1 = lit ''0X'');
          radix = (if hex then 16 else 10);
          s2 = (if hex then drop 2 s1 else s1);
          z = takeWhile (\<lambda>c. digitValue radix c \<noteq> None) s2
      in if z = [] then NaN
         else toDouble (if negative then - of_nat (digitsValue radix z)
                        else of_nat (digitsValue radix z)))"
    by (simp only: parseInt_def ws Let_def)
  also have "\<dots> = toDouble (of_nat (digitsValue 10 ds))"
    using assms(1) isDigit_not_special(2,3) [OF h] hex
    by (simp only: Let_def simp_thms if_False if_True z)
  finally show ?thesis .
qed

lemma parseFloat_toString: "parseFloat (toString n) = toDouble (of_nat n)"
  using parseFloat_digits [OF toString_nonempty toString_digits, of n]
  by (simp only: digitsValue_toString)

lemma parseInt_toString: "parseInt (toString n) = toDouble (of_nat n)"
  using parseInt_digits [OF toString_nonempty toString_digits, of n]
  by (simp only: digitsValue_toString)

lemma orElse_NaN_iff:
  "orElse a (Num 0) = (if a = NaN then Num 0 else a)"
  "orElse a (Num 1) = (if a = NaN \<or> a = Num 0 then Num 1 else a)"
  by (cases a; simp add: orElse_def)+

lemma pnl_of_nat:
  assumes "a \<le> 2 ^ 53" and "b \<le> 2 ^ 53"
  shows "num_mul (num_sub (Num (of_nat b)) (Num (of_nat a))) (Num (of_nat c))
           = toDouble (of_int ((int b - int a) * int c))"
proof -
  have "\<bar>int b - int a\<bar> \<le> 2 ^ 53" using assms by simp
  then have "toDouble (of_int (int b - int a)) = Num (of_int (int b - int a))"
    by (rule toDouble_of_int)
  then have "num_sub (Num (of_nat b)) (Num (of_nat a)) = Num (of_int (int b - int a))"
    by (simp add: num_sub_def)
  then show ?thesis by simp
qed

lemma toDouble_3_2: "toDouble (3 / 2) = Num (3 / 2)"
  using toDouble_fix [of 3 "- 1"] by (simp add: power_int_minus)

lemma toDouble_9_4: "toDouble (9 / 4) = Num (9 / 4)"
  using toDouble_fix [of 9 "- 2"] by (simp add: power_int_minus)

lemma toDouble_3_4: "toDouble (3 / 4) = Num (3 / 4)"
  using toDouble_fix [of 3 "- 2"] by (simp add: power_int_minus)

lemma parseFloat_1_5: "parseFloat (lit ''1.5'') = Num (3 / 2)"
  by (simp add: parseFloat_def lit_Cons isWhiteSpace_def isDigit_def digitsValue_def digitValue_def
      exponentPart_def Let_def power_int_minus toDouble_3_2)

lemma parseFloat_2_25: "parseFloat (lit ''2.25'') = Num (9 / 4)"
  by (simp add: parseFloat_def lit_Cons isWhiteSpace_def isDigit_def digitsValue_def digitValue_def
      exponentPart_def Let_def power_int_minus toDouble_9_4)

lemma parseInt_4: "parseInt (lit ''4'') = Num 4"
  by (simp add: parseInt_def lit_Cons isWhiteSpace_def digitsValue_def digitValue_def Let_def)

lemma pnl_3: "num_mul (num_sub (Num (9 / 4)) (Num (3 / 2))) (Num 4) = Num 3"
  by (simp add: num_sub_def toDouble_3_4)

text \<open>
  Claim C10. A trade submission appends one entry. The stored entry price is what
  \<open>parseFloat\<close> makes of the entry price field, and 0 when that is NaN (as for every text
  with no digit and no letter I); likewise the exit price; the stored shares are what
  \<open>parseInt\<close> makes of the shares field, and 1 when that is NaN (as for every text with no
  digit) or 0. The stored pnl is the product of the difference of the stored prices and the
  stored shares, in double arithmetic. When the three fields hold the decimal numerals of
  natural numbers \<open>a\<close>, \<open>b\<close> and \<open>c > 0\<close> up to \<open>2^53\<close>, the entry stores \<open>a\<close>, \<open>b\<close>,
  \<open>c\<close> and the pnl \<open>(b - a) * c\<close> rounded to a double. With both price fields empty and
  the shares field \<open>0\<close> the entry has prices 0, shares 1 and pnl 0; with the fields \<open>10\<close>,
  \<open>15\<close> and \<open>2\<close> it has prices 10 and 15, shares 2 and pnl 10.
\<close>

theorem TradeLog_handleSubmit_coercion:
  "\<exists>entry. tradeEntries (snd (TradeLog_handleSubmit clock f st)) = tradeEntries st @ [entry]
     \<and> entryPrice entry = (if parseFloat (entryPrice_input f) = NaN then Num 0
                           else parseFloat (entryPrice_input f))
     \<and> exitPrice entry = (if parseFloat (exitPrice_input f) = NaN then Num 0
                          else parseFloat (exitPrice_input f))
     \<and> shares entry = (if parseInt (shares_input f) = NaN \<or> parseInt (shares_input f) = Num 0
                       then Num 1 else parseInt (shares_input f))
     \<and> pnl entry = num_mul (num_sub (exitPrice entry) (entryPrice entry)) (shares entry)
     \<and> ((\<forall>c \<in> set (entryPrice_input f). \<not> isDigit c \<and> c \<noteq> of_char CHR ''I'') \<longrightarrow>
          entryPrice entry = Num 0)
     \<and> ((\<forall>c \<in> set (exitPrice_input f). \<not> isDigit c \<and> c \<noteq> of_char CHR ''I'') \<longrightarrow>
          exitPrice entry = Num 0)
     \<and> ((\<forall>c \<in> set (shares_input f). \<not> isDigit c) \<longrightarrow> shares entry = Num 1)
     \<and> (\<forall>a b c. entryPrice_input f = toString a \<and> exitPrice_input f = toString b
            \<and> shares_input f = toString c \<and> a \<le> 2 ^ 53 \<and> b \<le> 2 ^ 53 \<and> 0 < c \<and> c \<le> 2 ^ 53 \<longrightarrow>
          entryPrice entry = Num (of_nat a) \<and> exitPrice entry = Num (of_nat b)
          \<and> shares entry = Num (of_nat c)
          \<and> pnl entry = toDouble (of_int ((int b - int a) * int c)))
     \<and> (entryPrice_input f = [] \<and> exitPrice_input f = [] \<and> shares_input f = lit ''0'' \<longrightarrow>
          entryPrice entry = Num 0 \<and> exitPrice entry = Num 0 \<and> shares entry = Num 1
          \<and> pnl entry = Num 0)
     \<and> (entryPrice_input f = lit ''10'' \<and> exitPrice_input f = lit ''15''
          \<and> shares_input f = lit ''2'' \<longrightarrow>
          entryPrice entry = Num 10 \<and> exitPrice entry = Num 15 \<and> shares entry = Num 2
          \<and> pnl entry = Num 10)"
proof -
  define entryP where "entryP = orElse (parseFloat (entryPrice_input f)) (Num 0)"
  define exitP where "exitP = orElse (parseFloat (exitPrice_input f)) (Num 0)"
  define sh where "sh = orElse (parseInt (shares_input f)) (Num 1)"
  define entry where "entry =
     \<lparr>trade_id = toString (Date_now clock), trade_date = toISOString clock,
      ticker = toUpperCase (ticker_input f),
      entryPrice = entryP, exitPrice = exitP, shares = sh,
      result = result_input f, pnl = num_mul (num_sub exitP entryP) sh,
      trade_notes = trade_notes_input f\<rparr>"
  have app: "tradeEntries (snd (TradeLog_handleSubmit clock f st)) = tradeEntries st @ [entry]"
    by (simp add: TradeLog_handleSubmit_def Let_def onAddTrade_def setTradeEntries_def
        entry_def entryP_def exitP_def sh_def)
  have e1: "entryPrice entry = (if parseFloat (entryPrice_input f) = NaN then Num 0
                           else parseFloat (entryPrice_input f))"
    by (simp only: entry_def entryP_def orElse_NaN_iff) simp
  have e2: "exitPrice entry = (if parseFloat (exitPrice_input f) = NaN then Num 0
                          else parseFloat (exitPrice_input f))"
    by (simp only: entry_def exitP_def orElse_NaN_iff) simp
  have e3: "shares entry = (if parseInt (shares_input f) = NaN \<or> parseInt (shares_input f) = Num 0
                       then Num 1 else parseInt (shares_input f))"
    by (simp only: entry_def sh_def orElse_NaN_iff) simp
  have e4: "(\<forall>c \<in> set (entryPrice_input f). \<not> isDigit c \<and> c \<noteq> of_char CHR ''I'') \<longrightarrow>
          entryPrice entry = Num 0"
    using e1 parseFloat_no_digit [of "entryPrice_input f"] by simp
  have e5: "(\<forall>c \<in> set (exitPrice_input f). \<not> isDigit c \<and> c \<noteq> of_char CHR ''I'') \<longrightarrow>
          exitPrice entry = Num 0"
    using e2 parseFloat_no_digit [of "exitPrice_input f"] by simp
  have e6: "(\<forall>c \<in> set (shares_input f). \<not> isDigit c) \<longrightarrow> shares entry = Num 1"
    using e3 parseInt_no_digit [of "shares_input f"] by simp
  have e7: "pnl entry = num_mul (num_sub (exitPrice entry) (entryPrice entry)) (shares entry)"
    by (simp add: entry_def)
  have e9: "entryPrice entry = Num (of_nat a) \<and> exitPrice entry = Num (of_nat b)
          \<and> shares entry = Num (of_nat c)
          \<and> pnl entry = toDouble (of_int ((int b - int a) * int c))"
    if h: "entryPrice_input f = toString a \<and> exitPrice_input f = toString b
            \<and> shares_input f = toString c \<and> a \<le> 2 ^ 53 \<and> b \<le> 2 ^ 53 \<and> 0 < c \<and> c \<le> 2 ^ 53"
    for a b c
  proof -
    have "parseFloat (entryPrice_input f) = Num (of_nat a)"
      "parseFloat (exitPrice_input f) = Num (of_nat b)"
      "parseInt (shares_input f) = Num (of_nat c)"
      using h by (simp_all add: parseFloat_toString parseInt_toString toDouble_of_nat)
    with e1 e2 e3 h have v: "entryPrice entry = Num (of_nat a)" "exitPrice entry = Num (of_nat b)"
      "shares entry = Num (of_nat c)"
      by simp_all
    with e7 have "pnl entry = num_mul (num_sub (Num (of_nat b)) (Num (of_nat a))) (Num (of_nat c))"
      by simp
    also have "\<dots> = toDouble (of_int ((int b - int a) * int c))"
      using h by (intro pnl_of_nat) simp_all
    finally show ?thesis using v by simp
  qed
  have e8: "entryPrice_input f = [] \<and> exitPrice_input f = [] \<and> shares_input f = lit ''0'' \<longrightarrow>
          entryPrice entry = Num 0 \<and> exitPrice entry = Num 0 \<and> shares entry = Num 1
          \<and> pnl entry = Num 0"
  proof
    assume h: "entryPrice_input f = [] \<and> exitPrice_input f = [] \<and> shares_input f = lit ''0''"
    then have "entryPrice entry = Num 0" "exitPrice entry = Num 0" "shares entry = Num 1"
      using e1 e2 e3 by (simp_all add: parseFloat_empty parseInt_zero)
    with e7 show "entryPrice entry = Num 0 \<and> exitPrice entry = Num 0 \<and> shares entry = Num 1
          \<and> pnl entry = Num 0"
      by (simp add: pnl_zero)
  qed
  have ts: "toString 10 = lit ''10''" "toString 15 = lit ''15''" "toString 2 = lit ''2''"
    by (simp_all add: toString.simps [of 10] toString.simps [of 15] toString.simps [of 2]
        toString.simps [of 1] toString.simps [of "Suc 0"] lit_Cons)
  have e10: "entryPrice_input f = lit ''10'' \<and> exitPrice_input f = lit ''15''
          \<and> shares_input f = lit ''2'' \<longrightarrow>
          entryPrice entry = Num 10 \<and> exitPrice entry = Num 15 \<and> shares entry = Num 2
          \<and> pnl entry = Num 10"
  proof
    assume "entryPrice_input f = lit ''10'' \<and> exitPrice_input f = lit ''15''
          \<and> shares_input f = lit ''2''"
    then have "entryPrice_input f = toString 10 \<and> exitPrice_input f = toString 15
            \<and> shares_input f = toString 2 \<and> (10::nat) \<le> 2 ^ 53 \<and> (15::nat) \<le> 2 ^ 53
            \<and> (0::nat) < 2 \<and> (2::nat) \<le> 2 ^ 53"
      by (simp add: ts)
    from e9 [OF this] show "entryPrice entry = Num 10 \<and> exitPrice entry = Num 15 \<and> shares entry = Num 2
          \<and> pnl entry = Num 10"
      by simp
  qed
  from app e1 e2 e3 e4 e5 e6 e7 e8 e9 e10 show ?thesis
    by blast
qed

theorem TradeLog_handleSubmit_coercion_witness:
  "map (\<lambda>e. (entryPrice e, exitPrice e, shares e, pnl e))
     (tradeEntries (snd (TradeLog_handleSubmit sampleClock sampleTradeLog initialState)))
   = [(Num 0, Num 0, Num 1, Num 0)]
   \<and> map (\<lambda>e. (entryPrice e, exitPrice e, shares e, pnl e))
     (tradeEntries (snd (TradeLog_handleSubmit sampleClock
        (sampleTradeLog\<lparr>entryPrice_input := lit ''10'', exitPrice_input := lit ''15'',
                         shares_input := lit ''2''\<rparr>) initialState)))
   = [(Num 10, Num 15, Num 2, Num 10)]
   \<and> map (\<lambda>e. (entryPrice e, exitPrice e, shares e, pnl e))
     (tradeEntries (snd (TradeLog_handleSubmit sampleClock
        (sampleTradeLog\<lparr>entryPrice_input := lit ''1.5'', exitPrice_input := lit ''2.25'',
                         shares_input := lit ''4''\<rparr>) initialState)))
   = [(Num (3 / 2), Num (9 / 4), Num 4, Num 3)]"
proof -
  have i: "tradeEntries initialState = []"
    by (simp add: initialState_def)
  have a: "entryPrice_input sampleTradeLog = [] \<and> exitPrice_input sampleTradeLog = []
      \<and> shares_input sampleTradeLog = lit ''0''"
    by (simp add: sampleTradeLog_def)
  have "map (\<lambda>e. (entryPrice e, exitPrice e, shares e, pnl e))
     (tradeEntries (snd (TradeLog_handleSubmit sampleClock sampleTradeLog initialState)))
   = [(Num 0, Num 0, Num 1, Num 0)]"
    using TradeLog_handleSubmit_coercion [of sampleClock sampleTradeLog initialState] a i
    by auto
  moreover have "map (\<lambda>e. (entryPrice e, exitPrice e, shares e, pnl e))
     (tradeEntries (snd (TradeLog_handleSubmit sampleClock
        (sampleTradeLog\<lparr>entryPrice_input := lit ''10'', exitPrice_input := lit ''15'',
                         shares_input := lit ''2''\<rparr>) initialState)))
   = [(Num 10, Num 15, Num 2, Num 10)]"
    using TradeLog_handleSubmit_coercion [of sampleClock
        "sampleTradeLog\<lparr>entryPrice_input := lit ''10'', exitPrice_input := lit ''15'',
                         shares_input := lit ''2''\<rparr>" initialState] i
    by auto
  moreover have "map (\<lambda>e. (entryPrice e, exitPrice e, shares e, pnl e))
     (tradeEntries (snd (TradeLog_handleSubmit sampleClock
        (sampleTradeLog\<lparr>entryPrice_input := lit ''1.5'', exitPrice_input := lit ''2.25'',
                         shares_input := lit ''4''\<rparr>) initialState)))
   = [(Num (3 / 2), Num (9 / 4), Num 4, Num 3)]"
  proof -
    define g where "g = sampleTradeLog\<lparr>entryPrice_input := lit ''1.5'',
      exitPrice_input := lit ''2.25'', shares_input := lit ''4''\<rparr>"
    have g: "entryPrice_input g = lit ''1.5''" "exitPrice_input g = lit ''2.25''"
      "shares_input g = lit ''4''"
      by (simp_all add: g_def)
    from TradeLog_handleSubmit_coercion [of sampleClock g initialState]
    obtain entry where e: "tradeEntries (snd (TradeLog_handleSubmit sampleClock g initialState))
          = tradeEntries initialState @ [entry]"
      "entryPrice entry = (if parseFloat (entryPrice_input g) = NaN then Num 0
                           else parseFloat (entryPrice_input g))"
      "exitPrice entry = (if parseFloat (exitPrice_input g) = NaN then Num 0
                          else parseFloat (exitPrice_input g))"
      "shares entry = (if parseInt (shares_input g) = NaN \<or> parseInt (shares_input g) = Num 0
                       then Num 1 else parseInt (shares_input g))"
      "pnl entry = num_mul (num_sub (exitPrice entry) (entryPrice entry)) (shares entry)"
      by blast
    from e(2,3,4) have v: "entryPrice entry = Num (3 / 2)" "exitPrice entry = Num (9 / 4)"
      "shares entry = Num 4"
      by (simp_all add: g parseFloat_1_5 parseFloat_2_25 parseInt_4)
    with e(5) have "pnl entry = Num 3" by (simp only: pnl_3)
    with e(1) v i show ?thesis unfolding g_def by simp
  qed
  ultimately show ?thesis
    by (intro conjI)
qed

section \<open>Persistence waits for the initial load\<close>

lemma loadedTrace_iff:
  "loadedTrace tr \<longleftrightarrow>
     (\<exists>tr'. tr = initialLoads @ LoadCompleted # tr' \<and> (\<forall>a \<in> set tr'. isSave a))"
proof
  assume l: "loadedTrace tr"
  have "tr = take 5 tr @ drop 5 tr" by simp
  with l have "tr = initialLoads @ LoadCompleted # drop 5 tr"
    by (simp add: loadedTrace_def)
  moreover from l have "\<forall>a \<in> set (drop 5 tr). isSave a"
    by (simp add: loadedTrace_def list_all_iff)
  ultimately show "\<exists>tr'. tr = initialLoads @ LoadCompleted # tr' \<and> (\<forall>a \<in> set tr'. isSave a)"
    by blast
next
  assume "\<exists>tr'. tr = initialLoads @ LoadCompleted # tr' \<and> (\<forall>a \<in> set tr'. isSave a)"
  then show "loadedTrace tr"
    by (auto simp add: loadedTrace_def initialLoads_def list_all_iff)
qed

lemma persist_fields:
  "component (persist str k v sys) = component sys"
  "trace (persist str k v sys) = trace sys @ [Save k (str v)]"
  "frame (persist str k v sys) = frame sys"
  "mounted (persist str k v sys) = mounted sys"
  "uncaught (persist str k v sys) = uncaught sys"
  by (simp_all add: persist_def split: prod.split)

lemma Inv_persist:
  assumes "Inv w0 sys" and "loaded (component sys)"
  shows "Inv w0 (persist str k v sys)"
proof -
  from assms obtain tr where tr: "trace sys = initialLoads @ LoadCompleted # tr" "\<forall>a \<in> set tr. isSave a"
    by (auto simp add: Inv_def loadedTrace_iff)
  then have "trace (persist str k v sys) = initialLoads @ LoadCompleted # (tr @ [Save k (str v)])"
      "\<forall>a \<in> set (tr @ [Save k (str v)]). isSave a"
    by (simp_all add: persist_fields)
  then have "\<exists>tr'. trace (persist str k v sys) = initialLoads @ LoadCompleted # tr' \<and> (\<forall>a \<in> set tr'. isSave a)"
    by blast
  with assms show ?thesis
    by (simp add: Inv_def loadedTrace_iff persist_fields)
qed

lemma Inv_saveEgo: "Inv w0 sys \<Longrightarrow> Inv w0 (saveEgo J sys)"
  by (simp add: saveEgo_def Inv_persist)

lemma Inv_saveTrades: "Inv w0 sys \<Longrightarrow> Inv w0 (saveTrades J sys)"
  by (simp add: saveTrades_def Inv_persist)

lemma Inv_saveDrills: "Inv w0 sys \<Longrightarrow> Inv w0 (saveDrills J sys)"
  by (simp add: saveDrills_def Inv_persist)

lemma Inv_saveSettings: "Inv w0 sys \<Longrightarrow> Inv w0 (saveSettings J sys)"
  by (simp add: saveSettings_def Inv_persist)

lemma Inv_component:
  "Inv w0 sys \<Longrightarrow> loaded c = loaded (component sys) \<Longrightarrow> Inv w0 (sys\<lparr>component := c\<rparr>)"
  by (simp add: Inv_def loadedTrace_iff)

lemma loaded_handlers:
  "loaded (setCurrentPage p st) = loaded st"
  "loaded (snd (EgoLog_handleSubmit clock f1 st)) = loaded st"
  "loaded (snd (TradeLog_handleSubmit clock f2 st)) = loaded st"
  "loaded (snd (WeaponDrills_handleSubmit clock f3 st)) = loaded st"
  "loaded (SettingsPage_onChange fld text st) = loaded st"
  "loaded (onReset st) = loaded st"
  by (simp_all add: setCurrentPage_def EgoLog_handleSubmit_def TradeLog_handleSubmit_def
      WeaponDrills_handleSubmit_def SettingsPage_onChange_def onReset_def onAddEgo_def
      onAddTrade_def onAddDrill_def onUpdate_def setEgoEntries_def setTradeEntries_def
      setDrillEntries_def setSettings_def Let_def)

lemma loadEffect_eq:
  "\<exists>vs. loadEffect J sys = sys\<lparr>frame := Some vs, trace := trace sys @ initialLoads\<rparr>"
proof -
  obtain a where a: "loadFromStorage (parse_ego J) (window sys) STORAGE_KEYS_egoEntries [] = Inr a"
    using loadFromStorage_returns [of "parse_ego J" "window sys" STORAGE_KEYS_egoEntries "[]"] by blast
  obtain b where b: "loadFromStorage (parse_trades J) (window sys) STORAGE_KEYS_tradeEntries [] = Inr b"
    using loadFromStorage_returns [of "parse_trades J" "window sys" STORAGE_KEYS_tradeEntries "[]"] by blast
  obtain c where c: "loadFromStorage (parse_drills J) (window sys) STORAGE_KEYS_drillEntries [] = Inr c"
    using loadFromStorage_returns [of "parse_drills J" "window sys" STORAGE_KEYS_drillEntries "[]"] by blast
  obtain d where d: "loadFromStorage (parse_settings J) (window sys) STORAGE_KEYS_settings defaultSettings = Inr d"
    using loadFromStorage_returns [of "parse_settings J" "window sys" STORAGE_KEYS_settings defaultSettings] by blast
  have "loadEffect J sys = sys\<lparr>frame := Some (a, b, c, d), trace := trace sys @ initialLoads\<rparr>"
    by (simp add: loadEffect_def a b c d initialLoads_def)
  then show ?thesis by blast
qed

lemma Inv_mount:
  assumes "Inv w0 sys" and "\<not> mounted sys"
  shows "Inv w0 (loadEffect J (sys\<lparr>mounted := True\<rparr>))"
proof -
  obtain vs where "loadEffect J (sys\<lparr>mounted := True\<rparr>)
      = sys\<lparr>mounted := True, frame := Some vs, trace := trace sys @ initialLoads\<rparr>"
    using loadEffect_eq [of J "sys\<lparr>mounted := True\<rparr>"] by auto
  with assms show ?thesis
    by (simp add: Inv_def loadedTrace_iff)
qed

lemma Inv_frameCallback:
  assumes "Inv w0 sys" and "frame sys = Some vs"
  shows "Inv w0 (frameCallback vs sys)"
proof -
  from assms have nl: "\<not> loaded (component sys)" and m: "mounted sys"
    by (auto simp add: Inv_def loadedTrace_iff)
  with assms have "trace sys = initialLoads"
    by (simp add: Inv_def loadedTrace_iff)
  then have "trace (frameCallback vs sys) = initialLoads @ LoadCompleted # []"
    by (simp add: frameCallback_def split: prod.split)
  moreover have "loaded (component (frameCallback vs sys))" "frame (frameCallback vs sys) = None"
    "mounted (frameCallback vs sys) = mounted sys" "uncaught (frameCallback vs sys) = uncaught sys"
    by (simp_all add: frameCallback_def setLoaded_def split: prod.split)
  ultimately show ?thesis
    using assms m by (simp add: Inv_def loadedTrace_iff)
qed

lemma Inv_step: 
  assumes "Inv w0 sys"
  shows "Inv w0 (step J ev sys)"
proof (cases ev)
  case Mount
  show ?thesis
  proof (cases "mounted sys")
    case True
    with assms Mount show ?thesis by (simp add: step_def)
  next
    case False
    from assms False have "Inv w0 (loadEffect J (sys\<lparr>mounted := True\<rparr>))"
      by (rule Inv_mount)
    then have "Inv w0 (saveSettings J (saveDrills J (saveTrades J (saveEgo J (loadEffect J (sys\<lparr>mounted := True\<rparr>))))))"
      by (intro Inv_saveSettings Inv_saveDrills Inv_saveTrades Inv_saveEgo)
    with assms Mount False \<open>Inv w0 (loadEffect J (sys\<lparr>mounted := True\<rparr>))\<close> show ?thesis
      by (simp add: step_def Let_def)
  qed
next
  case AnimationFrame
  show ?thesis
  proof (cases "frame sys")
    case None
    with assms AnimationFrame show ?thesis by (simp add: step_def)
  next
    case (Some vs)
    with assms have "Inv w0 (frameCallback vs sys)"
      by (simp add: Inv_frameCallback)
    then have "Inv w0 (saveSettings J (saveDrills J (saveTrades J (saveEgo J (frameCallback vs sys)))))"
      by (intro Inv_saveSettings Inv_saveDrills Inv_saveTrades Inv_saveEgo)
    with assms AnimationFrame Some show ?thesis
      by (simp add: step_def)
  qed
next
  case (Navigate p)
  with assms show ?thesis
    by (simp add: step_def Inv_component loaded_handlers)
next
  case (SubmitEgo clock f)
  with assms show ?thesis
    by (simp add: step_def Inv_component loaded_handlers Inv_saveEgo)
next
  case (SubmitTrade clock f)
  with assms show ?thesis
    by (simp add: step_def Inv_component loaded_handlers Inv_saveTrades)
next
  case (SubmitDrill clock f)
  with assms show ?thesis
    by (simp add: step_def Inv_component loaded_handlers Inv_saveDrills)
next
  case (ChangeSetting fld input)
  with assms show ?thesis
    by (simp add: step_def Inv_component loaded_handlers Inv_saveSettings)
next
  case Reset
  with assms show ?thesis
    by (simp add: step_def Inv_component loaded_handlers Inv_saveEgo Inv_saveTrades Inv_saveDrills)
qed

lemma Inv_initial: "Inv w (initialSystem w)"
  by (simp add: Inv_def loadedTrace_iff initialSystem_def initialState_def)

lemma Inv_foldl: "Inv w0 sys \<Longrightarrow> Inv w0 (foldl (\<lambda>s ev. step J ev s) sys evs)"
  by (induction evs arbitrary: sys) (simp_all add: Inv_step)

lemma Inv_run: "Inv w (run J evs (initialSystem w))"
  unfolding run_def by (rule Inv_foldl [OF Inv_initial])

lemma initialLoads_no_Save: "\<not> isSave a" if "a \<in> set (initialLoads @ [LoadCompleted])"
  using that by (auto simp add: initialLoads_def)

text \<open>
  Claim C6. In every run of the component, from any storage and under any sequence of events,
  a save of any key comes after the four initial loads and the completion of the load: the
  part of the trace before a save begins with the four loads followed by the completion. While
  \<open>loaded\<close> is false no save has happened and the storage is exactly as it was at the start.
\<close>

theorem saves_after_load:
  "(\<forall>pre k v post. trace (run J evs (initialSystem w)) = pre @ Save k v # post \<longrightarrow>
      (\<exists>mid. pre = initialLoads @ LoadCompleted # mid))
   \<and> (\<not> loaded (component (run J evs (initialSystem w))) \<longrightarrow>
        window (run J evs (initialSystem w)) = w
        \<and> (\<forall>a \<in> set (trace (run J evs (initialSystem w))). \<not> isSave a))"
proof -
  define sys where "sys = run J evs (initialSystem w)"
  have inv: "Inv w sys"
    unfolding sys_def by (rule Inv_run)
  have nosave: "\<forall>a \<in> set (trace sys). \<not> isSave a" if "\<not> loaded (component sys)"
  proof (cases "mounted sys")
    case True
    with inv that have "trace sys = initialLoads" by (simp add: Inv_def loadedTrace_iff)
    then show ?thesis by (simp add: initialLoads_def)
  next
    case False
    with inv have "trace sys = []" by (simp add: Inv_def loadedTrace_iff)
    then show ?thesis by simp
  qed
  have a: "\<exists>mid. pre = initialLoads @ LoadCompleted # mid"
    if eq: "trace sys = pre @ Save k v # post" for pre k v post
  proof -
    have "Save k v \<in> set (trace sys)" by (simp add: eq)
    with nosave have "loaded (component sys)" by fastforce
    with inv obtain tr where tr: "trace sys = (initialLoads @ [LoadCompleted]) @ tr"
      by (auto simp add: Inv_def loadedTrace_iff)
    with eq have "pre @ Save k v # post = (initialLoads @ [LoadCompleted]) @ tr" by simp
    then consider us where "pre = (initialLoads @ [LoadCompleted]) @ us"
      | us where "pre @ us = initialLoads @ [LoadCompleted]" "Save k v # post = us @ tr"
      by (auto simp only: append_eq_append_conv2)
    then show ?thesis
    proof cases
      case 1
      then show ?thesis by simp
    next
      case 2
      show ?thesis
      proof (cases us)
        case Nil
        with 2 show ?thesis by simp
      next
        case (Cons u us')
        with 2 have "u = Save k v" by simp
        with Cons have "Save k v \<in> set (pre @ us)" by simp
        with 2 have "Save k v \<in> set (initialLoads @ [LoadCompleted])" by simp
        then have "\<not> isSave (Save k v)" by (rule initialLoads_no_Save)
        then show ?thesis by simp
      qed
    qed
  qed
  have b: "\<not> loaded (component sys) \<longrightarrow> window sys = w \<and> (\<forall>a \<in> set (trace sys). \<not> isSave a)"
    using inv nosave by (simp add: Inv_def loadedTrace_iff)
  from a b show ?thesis
    unfolding sys_def by blast
qed

theorem saves_after_load_witness:
  "trace (run sampleJSON [Mount, Navigate ego, AnimationFrame] (initialSystem (Some persistedStorage)))
     = initialLoads @ LoadCompleted #
         [Save (lit ''bluelock_ego'') (lit ''[ego]''), Save (lit ''bluelock_trades'') (lit ''[]''),
          Save (lit ''bluelock_drills'') (lit ''[]''), Save (lit ''bluelock_settings'') (lit ''{default}'')]
   \<and> window (run sampleJSON [Mount, Navigate ego] (initialSystem (Some persistedStorage)))
       = Some persistedStorage"
proof -
  have "trace (run sampleJSON [Mount, Navigate ego, AnimationFrame] (initialSystem (Some persistedStorage)))
     = (initialLoads @ [LoadCompleted]) @ Save (lit ''bluelock_ego'') (lit ''[ego]'') #
         [Save (lit ''bluelock_trades'') (lit ''[]''), Save (lit ''bluelock_drills'') (lit ''[]''),
          Save (lit ''bluelock_settings'') (lit ''{default}'')]"
    by (simp add: run_def step_def initialSystem_def initialState_def Let_def loadEffect_def
        loadFromStorage_def loadFromStorage_try_def getItem_def persistedStorage_def sampleJSON_def
        STORAGE_KEYS_egoEntries_def STORAGE_KEYS_tradeEntries_def STORAGE_KEYS_drillEntries_def
        STORAGE_KEYS_settings_def saveEgo_def saveTrades_def saveDrills_def saveSettings_def
        frameCallback_def setLoaded_def setSettings_def setDrillEntries_def setTradeEntries_def
        setEgoEntries_def setCurrentPage_def persist_def saveToStorage_def setItem_def usage_def
        initialLoads_def)
  moreover have "\<not> loaded (component (run sampleJSON [Mount, Navigate ego]
      (initialSystem (Some persistedStorage))))"
    by (simp add: run_def step_def initialSystem_def initialState_def Let_def loadEffect_def
        loadFromStorage_def loadFromStorage_try_def getItem_def persistedStorage_def sampleJSON_def
        STORAGE_KEYS_egoEntries_def STORAGE_KEYS_tradeEntries_def STORAGE_KEYS_drillEntries_def
        STORAGE_KEYS_settings_def saveEgo_def saveTrades_def saveDrills_def saveSettings_def
        setCurrentPage_def)
  then have "window (run sampleJSON [Mount, Navigate ego] (initialSystem (Some persistedStorage)))
       = Some persistedStorage"
    using saves_after_load [of sampleJSON "[Mount, Navigate ego]" "Some persistedStorage"]
    by blast
  ultimately show ?thesis
    by simp
qed

section \<open>Reset\<close>

lemma onReset_fields:
  "egoEntries (onReset st) = []" "tradeEntries (onReset st) = []" "drillEntries (onReset st) = []"
  "settings (onReset st) = settings st" "currentPage (onReset st) = currentPage st"
  "loaded (onReset st) = loaded st"
  by (simp_all add: onReset_def setEgoEntries_def setTradeEntries_def setDrillEntries_def)

text \<open>
  Claim C5. \<open>onReset\<close> leaves the ego, trade and drill lists empty and does not change the
  settings (nor the page shown, nor the \<open>loaded\<close> flag). In the running component the
  reset event leaves the settings unchanged as well, and either does nothing (the settings page
  is not on screen) or saves the three emptied lists, and nothing under the settings key.
\<close>

theorem onReset_frame:
  "egoEntries (onReset st) = [] \<and> tradeEntries (onReset st) = [] \<and> drillEntries (onReset st) = []
   \<and> settings (onReset st) = settings st
   \<and> currentPage (onReset st) = currentPage st \<and> loaded (onReset st) = loaded st
   \<and> settings (component (step J Reset sys)) = settings (component sys)
   \<and> (step J Reset sys = sys
        \<or> component (step J Reset sys) = onReset (component sys)
          \<and> trace (step J Reset sys)
              = trace sys @ [Save STORAGE_KEYS_egoEntries (stringify_ego J []),
                             Save STORAGE_KEYS_tradeEntries (stringify_trades J []),
                             Save STORAGE_KEYS_drillEntries (stringify_drills J [])])"
proof -
  have sys: "settings (component (step J Reset sys)) = settings (component sys)
      \<and> (step J Reset sys = sys
        \<or> component (step J Reset sys) = onReset (component sys)
          \<and> trace (step J Reset sys)
              = trace sys @ [Save STORAGE_KEYS_egoEntries (stringify_ego J []),
                             Save STORAGE_KEYS_tradeEntries (stringify_trades J []),
                             Save STORAGE_KEYS_drillEntries (stringify_drills J [])])"
  proof (cases "uncaught sys = None \<and> visible settings_page sys")
    case False
    then have "step J Reset sys = sys" by (auto simp add: step_def)
    then show ?thesis by simp
  next
    case True
    then have l: "loaded (component sys)" by (simp add: visible_def)
    define sys1 where "sys1 = sys\<lparr>component := onReset (component sys)\<rparr>"
    have s: "step J Reset sys = saveDrills J (saveTrades J (saveEgo J sys1))"
      using True by (simp add: step_def sys1_def)
    have l1: "loaded (component sys1)" using l by (simp add: sys1_def onReset_fields)
    have "component (step J Reset sys) = onReset (component sys)"
      by (simp add: s saveDrills_def saveTrades_def saveEgo_def persist_fields sys1_def)
    moreover have "trace (step J Reset sys)
              = trace sys @ [Save STORAGE_KEYS_egoEntries (stringify_ego J []),
                             Save STORAGE_KEYS_tradeEntries (stringify_trades J []),
                             Save STORAGE_KEYS_drillEntries (stringify_drills J [])]"
      using l1 by (simp add: s saveDrills_def saveTrades_def saveEgo_def persist_fields)
        (simp add: sys1_def onReset_fields)
    ultimately show ?thesis by (simp add: onReset_fields)
  qed
  then show ?thesis by (simp add: onReset_fields)
qed

end
